theory Spec2Isabelle
  imports Main "HOL-Library.Word" "HOL-Library.AList"
begin

section \<open>Strings and values of the host language\<close>

text \<open>
  A JavaScript string is a sequence of UTF-16 code units; the regular expressions of
  \<^verbatim>\<open>src/index.js\<close> carry no \<^verbatim>\<open>u\<close> flag, so they read a string code unit by code unit.
  Literals of the source are written \<open>js ''...''\<close>.
\<close>

type_synonym jschar = "16 word"
type_synonym jsstring = "jschar list"

abbreviation (input) ch :: "char \<Rightarrow> jschar" where
  "ch c \<equiv> of_char c"

definition js :: "string \<Rightarrow> jsstring" where
  "js s = map of_char s"

text \<open>
  The values a caller passes as arguments. \<open>JNum n\<close> is the Number with the integer value
  \<open>n\<close> (in the range where ToString prints plain decimal digits); other Numbers, objects
  and symbols are outside the model.
\<close>

datatype jsval = JUndefined | JNull | JBool bool | JNum int | JStr jsstring

text \<open>
  What a call can raise. \<open>NoRegExp\<close> stands for a source text that the \<^verbatim>\<open>RegExp\<close>
  constructor model below does not turn into a regular expression: the host raises
  SyntaxError, or the text uses syntax outside the modelled fragment.
\<close>

datatype error = TypeError | URIError | NoRegExp

definition digit_char :: "nat \<Rightarrow> jschar" where
  "digit_char d = of_nat (48 + d)"

fun dec :: "nat \<Rightarrow> jsstring" where
  "dec n = (if n < 10 then [digit_char n] else dec (n div 10) @ [digit_char (n mod 10)])"

declare dec.simps [simp del]

fun ToString :: "jsval \<Rightarrow> jsstring" where
  "ToString JUndefined = js ''undefined''"
| "ToString JNull = js ''null''"
| "ToString (JBool b) = (if b then js ''true'' else js ''false'')"
| "ToString (JNum n) = (if n < 0 then ch CHR ''-'' # dec (nat (- n)) else dec (nat n))"
| "ToString (JStr s) = s"

text \<open>Truthiness, as \<^verbatim>\<open>||\<close> and \<^verbatim>\<open>? :\<close> test it.\<close>

fun truthy :: "jsval \<Rightarrow> bool" where
  "truthy JUndefined = False"
| "truthy JNull = False"
| "truthy (JBool b) = b"
| "truthy (JNum n) = (n \<noteq> 0)"
| "truthy (JStr s) = (s \<noteq> [])"

subsection \<open>encodeURIComponent\<close>

definition is_upper :: "jschar \<Rightarrow> bool" where
  "is_upper c = (0x41 \<le> c \<and> c \<le> 0x5A)"

definition is_lower :: "jschar \<Rightarrow> bool" where
  "is_lower c = (0x61 \<le> c \<and> c \<le> 0x7A)"

definition is_digit :: "jschar \<Rightarrow> bool" where
  "is_digit c = (0x30 \<le> c \<and> c \<le> 0x39)"

text \<open>The characters encodeURIComponent leaves as they are: letters, digits and \<^verbatim>\<open>-_.!~*'()\<close>.\<close>

definition uri_unreserved :: "jschar \<Rightarrow> bool" where
  "uri_unreserved c = (is_upper c \<or> is_lower c \<or> is_digit c \<or> c \<in> set (js ''-_.!~*'()''))"

definition is_lead_surrogate :: "jschar \<Rightarrow> bool" where
  "is_lead_surrogate c = (0xD800 \<le> c \<and> c \<le> 0xDBFF)"

definition is_trail_surrogate :: "jschar \<Rightarrow> bool" where
  "is_trail_surrogate c = (0xDC00 \<le> c \<and> c \<le> 0xDFFF)"

definition hex_digit :: "nat \<Rightarrow> jschar" where
  "hex_digit d = (if d < 10 then of_nat (48 + d) else of_nat (55 + d))"

definition percent :: "nat \<Rightarrow> jsstring" where
  "percent byte = [ch CHR ''%'', hex_digit (byte div 16), hex_digit (byte mod 16)]"

definition utf8 :: "nat \<Rightarrow> nat list" where
  "utf8 cp =
     (if cp < 0x80 then [cp]
      else if cp < 0x800 then [0xC0 + cp div 64, 0x80 + cp mod 64]
      else if cp < 0x10000 then
        [0xE0 + cp div 4096, 0x80 + (cp div 64) mod 64, 0x80 + cp mod 64]
      else
        [0xF0 + cp div 262144, 0x80 + (cp div 4096) mod 64,
         0x80 + (cp div 64) mod 64, 0x80 + cp mod 64])"

definition escape_cp :: "nat \<Rightarrow> jsstring" where
  "escape_cp cp = concat (map percent (utf8 cp))"

definition pair_cp :: "jschar \<Rightarrow> jschar \<Rightarrow> nat" where
  "pair_cp hi lo = (unat hi - 0xD800) * 0x400 + (unat lo - 0xDC00) + 0x10000"

text \<open>
  The host's Encode: an unpaired surrogate raises URIError, every other code point
  outside the unreserved set becomes the percent-escapes of its UTF-8 bytes.
\<close>

fun uri_encode :: "jsstring \<Rightarrow> error + jsstring" where
  "uri_encode [] = Inr []"
| "uri_encode (c # cs) =
     (if uri_unreserved c then
        (case uri_encode cs of Inl e \<Rightarrow> Inl e | Inr r \<Rightarrow> Inr (c # r))
      else if is_trail_surrogate c then Inl URIError
      else if is_lead_surrogate c then
        (case cs of
           [] \<Rightarrow> Inl URIError
         | d # ds \<Rightarrow>
             if is_trail_surrogate d then
               (case uri_encode ds of Inl e \<Rightarrow> Inl e
                | Inr r \<Rightarrow> Inr (escape_cp (pair_cp c d) @ r))
             else Inl URIError)
      else
        (case uri_encode cs of Inl e \<Rightarrow> Inl e
         | Inr r \<Rightarrow> Inr (escape_cp (unat c) @ r)))"

definition encodeURIComponent :: "jsval \<Rightarrow> error + jsstring" where
  "encodeURIComponent v = uri_encode (ToString v)"

section \<open>Regular expressions of the host language\<close>

text \<open>
  The fragment of the regular-expression language that the source's literals and the
  sources assembled by \<^verbatim>\<open>routeToRegex\<close> are written in, with the host's backtracking
  semantics: greedy and lazy quantifiers, optional groups tried before they are skipped,
  capture groups, and the anchors (no \<^verbatim>\<open>m\<close> flag: \<^verbatim>\<open>^\<close> and \<^verbatim>\<open>$\<close> are the two ends of the
  input).
\<close>

definition is_word :: "jschar \<Rightarrow> bool" where
  \<comment> \<open>\<^verbatim>\<open>\w\<close>\<close>
  "is_word c = (is_upper c \<or> is_lower c \<or> is_digit c \<or> c = ch CHR ''_'')"

definition is_line_terminator :: "jschar \<Rightarrow> bool" where
  "is_line_terminator c = (c = 0x0A \<or> c = 0x0D \<or> c = 0x2028 \<or> c = 0x2029)"

definition is_space :: "jschar \<Rightarrow> bool" where
  \<comment> \<open>\<^verbatim>\<open>\s\<close>: WhiteSpace and LineTerminator\<close>
  "is_space c =
     (c = 0x09 \<or> c = 0x0B \<or> c = 0x0C \<or> c = 0x20 \<or> c = 0xA0 \<or> c = 0x1680 \<or>
      (0x2000 \<le> c \<and> c \<le> 0x200A) \<or> c = 0x202F \<or> c = 0x205F \<or> c = 0x3000 \<or>
      c = 0xFEFF \<or> is_line_terminator c)"

datatype citem = CChar jschar | CSpace | CNonSpace

datatype atom =
    Lit jschar
  | AnyChar
  | WordChar
  | Bracket "citem list"
  | NegBracket "citem list"

fun citem_match :: "citem \<Rightarrow> jschar \<Rightarrow> bool" where
  "citem_match (CChar a) c = (c = a)"
| "citem_match CSpace c = is_space c"
| "citem_match CNonSpace c = (\<not> is_space c)"

fun atom_match :: "atom \<Rightarrow> jschar \<Rightarrow> bool" where
  "atom_match (Lit a) c = (c = a)"
| "atom_match AnyChar c = (\<not> is_line_terminator c)"
| "atom_match WordChar c = is_word c"
| "atom_match (Bracket items) c = list_ex (\<lambda>i. citem_match i c) items"
| "atom_match (NegBracket items) c = (\<not> list_ex (\<lambda>i. citem_match i c) items)"

text \<open>
  \<open>Close k start\<close> is the matcher's own mark for the end of capture group \<open>k\<close>, which began
  when the input was \<open>start\<close>; no regular expression is written with it.
\<close>

datatype re =
    One atom
  | Star atom
  | Plus atom
  | LazyStar atom
  | Opt "re list"
  | NonCap "re list"
  | Group nat "re list"
  | Close nat jsstring
  | Bol
  | Eol

type_synonym caps = "(nat \<times> jsstring) list"

fun weight :: "re \<Rightarrow> nat" where
  "weight (Plus a) = 2"
| "weight (Opt body) = Suc (sum_list (map weight body))"
| "weight (NonCap body) = Suc (sum_list (map weight body))"
| "weight (Group k body) = Suc (Suc (sum_list (map weight body)))"
| "weight r = 1"

text \<open>
  \<open>bt rs b inp c\<close> matches the sequence \<open>rs\<close> at the head of \<open>inp\<close>; \<open>b\<close> says that \<open>inp\<close> is
  the whole input (position 0). The result is the input left after the match and the
  captures.
\<close>

function (sequential) bt :: "re list \<Rightarrow> bool \<Rightarrow> jsstring \<Rightarrow> caps \<Rightarrow> (jsstring \<times> caps) option" where
  "bt [] b inp c = Some (inp, c)"
| "bt (One a # rs) b [] c = None"
| "bt (One a # rs) b (x # xs) c = (if atom_match a x then bt rs False xs c else None)"
| "bt (Plus a # rs) b [] c = None"
| "bt (Plus a # rs) b (x # xs) c =
     (if atom_match a x then bt (Star a # rs) False xs c else None)"
| "bt (Star a # rs) b [] c = bt rs b [] c"
| "bt (Star a # rs) b (x # xs) c =
     (if atom_match a x then
        (case bt (Star a # rs) False xs c of
           Some r \<Rightarrow> Some r
         | None \<Rightarrow> bt rs b (x # xs) c)
      else bt rs b (x # xs) c)"
| "bt (LazyStar a # rs) b [] c = bt rs b [] c"
| "bt (LazyStar a # rs) b (x # xs) c =
     (case bt rs b (x # xs) c of
        Some r \<Rightarrow> Some r
      | None \<Rightarrow> if atom_match a x then bt (LazyStar a # rs) False xs c else None)"
| "bt (Opt body # rs) b inp c =
     (case bt (body @ rs) b inp c of Some r \<Rightarrow> Some r | None \<Rightarrow> bt rs b inp c)"
| "bt (NonCap body # rs) b inp c = bt (body @ rs) b inp c"
| "bt (Group k body # rs) b inp c = bt (body @ Close k inp # rs) b inp c"
| "bt (Close k start # rs) b inp c =
     bt rs b inp ((k, take (length start - length inp) start) # c)"
| "bt (Bol # rs) b inp c = (if b then bt rs b inp c else None)"
| "bt (Eol # rs) b inp c = (if inp = [] then bt rs b inp c else None)"
  by pat_completeness auto
termination
  by (relation "measures [\<lambda>(rs, b, inp, c). sum_list (map weight rs),
                          \<lambda>(rs, b, inp, c). length inp]") auto

text \<open>Captures are read with \<open>map_of\<close>: the latest binding of a group is the first.\<close>

definition no_caps :: caps where
  "no_caps = []"

text \<open>
  The leftmost match at or after the head of \<open>inp\<close>: the text skipped, the text matched,
  the text left, and the captures.
\<close>

fun search :: "re list \<Rightarrow> bool \<Rightarrow> jsstring \<Rightarrow> (jsstring \<times> jsstring \<times> jsstring \<times> caps) option" where
  "search r b [] =
     (case bt r b [] no_caps of
        Some (rest, c) \<Rightarrow> Some ([], [], rest, c)
      | None \<Rightarrow> None)"
| "search r b (x # xs) =
     (case bt r b (x # xs) no_caps of
        Some (rest, c) \<Rightarrow> Some ([], take (Suc (length xs) - length rest) (x # xs), rest, c)
      | None \<Rightarrow>
          (case search r False xs of
             Some (pre, txt, post, c) \<Rightarrow> Some (x # pre, txt, post, c)
           | None \<Rightarrow> None))"

lemma bt_drop: "bt rs b inp c = Some (rest, c') \<Longrightarrow> \<exists>n. rest = drop n inp"
proof (induction rs b inp c arbitrary: rest c' rule: bt.induct)
  case (3 a rs b x xs c)
  then obtain n where "rest = drop n xs" by (auto split: if_splits)
  then have "rest = drop (Suc n) (x # xs)" by simp
  then show ?case by blast
next
  case (5 a rs b x xs c)
  then obtain n where "rest = drop n xs" by (auto split: if_splits)
  then have "rest = drop (Suc n) (x # xs)" by simp
  then show ?case by blast
next
  case (7 a rs b x xs c)
  show ?case
  proof (cases "atom_match a x \<and> bt (Star a # rs) False xs c \<noteq> None")
    case True
    with 7 obtain n where "rest = drop n xs" by (auto split: if_splits option.splits)
    then have "rest = drop (Suc n) (x # xs)" by simp
    then show ?thesis by blast
  next
    case False
    with 7 show ?thesis by (auto split: if_splits option.splits)
  qed
next
  case (9 a rs b x xs c)
  show ?case
  proof (cases "bt rs b (x # xs) c")
    case None
    with 9 obtain n where "rest = drop n xs" by (auto split: if_splits)
    then have "rest = drop (Suc n) (x # xs)" by simp
    then show ?thesis by blast
  next
    case (Some r)
    with 9 show ?thesis by auto
  qed
qed (auto split: if_splits option.splits intro: exI [of _ 0])

lemma bt_length: "bt rs b inp c = Some (rest, c') \<Longrightarrow> length rest \<le> length inp"
  by (drule bt_drop) auto

lemma bt_split:
  "bt rs b inp c = Some (rest, c') \<Longrightarrow> take (length inp - length rest) inp @ rest = inp"
proof -
  assume "bt rs b inp c = Some (rest, c')"
  then obtain n where n: "rest = drop n inp" by (auto dest: bt_drop)
  show ?thesis
  proof (cases "n \<le> length inp")
    case True
    with n show ?thesis by simp
  next
    case False
    with n show ?thesis by simp
  qed
qed

lemma search_split: "search r b inp = Some (pre, txt, post, c) \<Longrightarrow> inp = pre @ txt @ post"
proof (induction inp arbitrary: b pre)
  case Nil
  then show ?case by (auto split: option.splits dest: bt_length)
next
  case (Cons x xs)
  show ?case
  proof (cases "bt r b (x # xs) no_caps")
    case None
    with Cons.prems obtain pre' where "search r False xs = Some (pre', txt, post, c)" "pre = x # pre'"
      by (auto split: option.splits)
    with Cons.IH show ?thesis by auto
  next
    case (Some p)
    obtain rest c' where p: "p = (rest, c')" by (cases p)
    with Some Cons.prems have eq: "pre = []" "txt = take (Suc (length xs) - length rest) (x # xs)"
      "post = rest" by auto
    from Some p have "take (length (x # xs) - length rest) (x # xs) @ rest = x # xs"
      by (intro bt_split) auto
    with eq show ?thesis by simp
  qed
qed

text \<open>
  The global scan of \<^verbatim>\<open>String.prototype.match\<close> and \<^verbatim>\<open>replace\<close> with a \<^verbatim>\<open>g\<close> regular
  expression: the input cut into the texts between matches (\<open>Gap\<close>) and the matches
  (\<open>Hit\<close>), left to right. After an empty match the scan moves on by one code unit.
\<close>

datatype seg = Gap jsstring | Hit jsstring caps

function segs :: "re list \<Rightarrow> bool \<Rightarrow> jsstring \<Rightarrow> seg list" where
  "segs r b inp =
     (case search r b inp of
        None \<Rightarrow> [Gap inp]
      | Some (pre, txt, post, c) \<Rightarrow>
          Gap pre # Hit txt c #
            (if txt = [] then (case post of [] \<Rightarrow> [] | x # xs \<Rightarrow> Gap [x] # segs r False xs)
             else segs r False post))"
  by pat_completeness auto
termination
  by (relation "measure (\<lambda>(r, b, inp). length inp)") (auto dest: search_split)

declare segs.simps [simp del]

fun hits :: "seg list \<Rightarrow> jsstring list" where
  "hits [] = []"
| "hits (Gap g # ss) = hits ss"
| "hits (Hit x c # ss) = x # hits ss"

fun orig :: "seg list \<Rightarrow> jsstring" where
  "orig [] = []"
| "orig (Gap g # ss) = g @ orig ss"
| "orig (Hit x c # ss) = x @ orig ss"

subsection \<open>Replacement text\<close>

definition capture :: "caps \<Rightarrow> nat \<Rightarrow> jsstring" where
  "capture c n = (case map_of c n of None \<Rightarrow> [] | Some s \<Rightarrow> s)"

definition digit_val :: "jschar \<Rightarrow> nat" where
  "digit_val d = unat d - 48"

text \<open>
  The host's GetSubstitution for a regular expression with \<open>m\<close> capture groups and no
  named group: \<^verbatim>\<open>$$\<close>, \<^verbatim>\<open>$&\<close>, \<^verbatim>\<open>$`\<close>, \<^verbatim>\<open>$'\<close>, \<^verbatim>\<open>$n\<close> and \<^verbatim>\<open>$nn\<close>; any other \<^verbatim>\<open>$\<close> stands
  for itself.
\<close>

fun expand :: "jsstring \<Rightarrow> nat \<Rightarrow> jsstring \<Rightarrow> caps \<Rightarrow> jsstring \<Rightarrow> jsstring \<Rightarrow> jsstring" where
  "expand [] m txt c bef aft = []"
| "expand [x] m txt c bef aft = [x]"
| "expand (x # d # ds) m txt c bef aft =
     (if x \<noteq> ch CHR ''$'' then x # expand (d # ds) m txt c bef aft
      else if d = ch CHR ''$'' then ch CHR ''$'' # expand ds m txt c bef aft
      else if d = ch CHR ''&'' then txt @ expand ds m txt c bef aft
      else if d = ch CHR 0x60 then bef @ expand ds m txt c bef aft
      else if d = ch CHR 0x27 then aft @ expand ds m txt c bef aft
      else if is_digit d then
        (case ds of
           e # es \<Rightarrow>
             if is_digit e \<and> 10 * digit_val d + digit_val e \<le> m then
               (if 1 \<le> 10 * digit_val d + digit_val e
                then capture c (10 * digit_val d + digit_val e) @ expand es m txt c bef aft
                else x # d # e # expand es m txt c bef aft)
             else if 1 \<le> digit_val d \<and> digit_val d \<le> m
               then capture c (digit_val d) @ expand ds m txt c bef aft
               else x # d # expand ds m txt c bef aft
         | [] \<Rightarrow>
             if 1 \<le> digit_val d \<and> digit_val d \<le> m then capture c (digit_val d)
             else [x, d])
      else x # expand (d # ds) m txt c bef aft)"

text \<open>
  A replacement is a template or a function of the match and its first capture (the
  only arguments the source's one replacement function reads).
\<close>

datatype replacer = Template jsstring | Callback "jsstring \<Rightarrow> jsstring option \<Rightarrow> jsstring"

fun substitute :: "replacer \<Rightarrow> nat \<Rightarrow> jsstring \<Rightarrow> caps \<Rightarrow> jsstring \<Rightarrow> jsstring \<Rightarrow> jsstring" where
  "substitute (Template t) m txt c bef aft = expand t m txt c bef aft"
| "substitute (Callback f) m txt c bef aft = f txt (map_of c 1)"

fun render :: "replacer \<Rightarrow> nat \<Rightarrow> jsstring \<Rightarrow> seg list \<Rightarrow> jsstring" where
  "render rp m bef [] = []"
| "render rp m bef (Gap g # ss) = g @ render rp m (bef @ g) ss"
| "render rp m bef (Hit x c # ss) = substitute rp m x c bef (orig ss) @ render rp m (bef @ x) ss"

fun ngroups :: "re \<Rightarrow> nat" where
  "ngroups (Opt body) = sum_list (map ngroups body)"
| "ngroups (NonCap body) = sum_list (map ngroups body)"
| "ngroups (Group k body) = Suc (sum_list (map ngroups body))"
| "ngroups r = 0"

record regexp =
  re_seq :: "re list"
  re_global :: bool

text \<open>
  \<^verbatim>\<open>String.prototype.replace\<close> with a regular expression: every match with the \<^verbatim>\<open>g\<close> flag,
  the first one without. With the flag the call sets \<^verbatim>\<open>lastIndex\<close> to 0 before the scan and
  leaves it 0; callers record that in the state below.
\<close>

definition replace_regexp :: "regexp \<Rightarrow> replacer \<Rightarrow> jsstring \<Rightarrow> jsstring" where
  "replace_regexp r rp s =
     (let m = sum_list (map ngroups (re_seq r)) in
      if re_global r then render rp m [] (segs (re_seq r) True s)
      else
        (case search (re_seq r) True s of
           None \<Rightarrow> s
         | Some (pre, txt, post, c) \<Rightarrow> pre @ substitute rp m txt c pre post @ post))"

text \<open>
  \<^verbatim>\<open>String.prototype.match\<close> with a \<^verbatim>\<open>g\<close> regular expression: all the matched texts, or
  null (\<open>None\<close>) when there is none. It leaves \<^verbatim>\<open>lastIndex\<close> 0 as well.
\<close>

definition match_global :: "regexp \<Rightarrow> jsstring \<Rightarrow> jsstring list option" where
  "match_global r s =
     (case hits (segs (re_seq r) True s) of [] \<Rightarrow> None | h # hs \<Rightarrow> Some (h # hs))"

text \<open>
  \<^verbatim>\<open>RegExp.prototype.test\<close>. With the \<^verbatim>\<open>g\<close> flag the search starts at \<^verbatim>\<open>lastIndex\<close> and the
  call stores the end of the match there, or 0 when it fails; without the flag
  \<^verbatim>\<open>lastIndex\<close> is neither read nor written. The result is the answer and the new
  \<^verbatim>\<open>lastIndex\<close>.
\<close>

definition regexp_test :: "regexp \<Rightarrow> nat \<Rightarrow> jsstring \<Rightarrow> bool \<times> nat" where
  "regexp_test r li s =
     (if re_global r then
        (if li > length s then (False, 0)
         else
           (case search (re_seq r) (li = 0) (drop li s) of
              None \<Rightarrow> (False, 0)
            | Some (pre, txt, post, c) \<Rightarrow> (True, length s - length post)))
      else
        (case search (re_seq r) True s of
           None \<Rightarrow> (False, li)
         | Some m \<Rightarrow> (True, li)))"

subsection \<open>String patterns\<close>

text \<open>The first occurrence of \<open>pat\<close> in a string: the text before it and the text after it.\<close>

fun find_sub :: "jsstring \<Rightarrow> jsstring \<Rightarrow> (jsstring \<times> jsstring) option" where
  "find_sub pat [] = (if pat = [] then Some ([], []) else None)"
| "find_sub pat (x # xs) =
     (if take (length pat) (x # xs) = pat then Some ([], drop (length pat) (x # xs))
      else
        (case find_sub pat xs of
           None \<Rightarrow> None
         | Some (a, b) \<Rightarrow> Some (x # a, b)))"

text \<open>\<^verbatim>\<open>String.prototype.replace\<close> with a string pattern: the first occurrence only.\<close>

definition replace_string :: "jsstring \<Rightarrow> jsstring \<Rightarrow> jsstring \<Rightarrow> jsstring" where
  "replace_string pat t s =
     (case find_sub pat s of
        None \<Rightarrow> s
      | Some (a, b) \<Rightarrow> a @ expand t 0 pat [] a b @ b)"

text \<open>\<^verbatim>\<open>s.indexOf(pat) !== -1\<close>\<close>

definition includes_str :: "jsstring \<Rightarrow> jsstring \<Rightarrow> bool" where
  "includes_str s pat = (find_sub pat s \<noteq> None)"

section \<open>The module: \<^verbatim>\<open>src/index.js\<close>\<close>

subsection \<open>Path analysis regular expressions\<close>

definition TRAILING_SLASH :: regexp where
  \<comment> \<open>\<^verbatim>\<open>/\/$/\<close>\<close>
  "TRAILING_SLASH = \<lparr>re_seq = [One (Lit (ch CHR ''/'')), Eol], re_global = False\<rparr>"

definition LEADING_SLASH :: regexp where
  \<comment> \<open>\<^verbatim>\<open>/^\//\<close>\<close>
  "LEADING_SLASH = \<lparr>re_seq = [Bol, One (Lit (ch CHR ''/''))], re_global = False\<rparr>"

definition PARENTHESES :: regexp where
  \<comment> \<open>\<^verbatim>\<open>/[\(\)]/g\<close>\<close>
  "PARENTHESES =
     \<lparr>re_seq = [One (Bracket [CChar (ch CHR ''(''), CChar (ch CHR '')'')])], re_global = True\<rparr>"

definition OPTIONAL_PARAMS :: regexp where
  \<comment> \<open>\<^verbatim>\<open>/\((.*?)\)/g\<close>\<close>
  "OPTIONAL_PARAMS =
     \<lparr>re_seq = [One (Lit (ch CHR ''('')), Group 1 [LazyStar AnyChar], One (Lit (ch CHR '')''))],
      re_global = True\<rparr>"

definition SPLAT_PARAMS :: regexp where
  \<comment> \<open>\<^verbatim>\<open>/\*\w+/g\<close>\<close>
  "SPLAT_PARAMS = \<lparr>re_seq = [One (Lit (ch CHR ''*'')), Plus WordChar], re_global = True\<rparr>"

definition NAMED_PARAM :: regexp where
  \<comment> \<open>\<^verbatim>\<open>/(\(\?)?:\w+/\<close>\<close>
  "NAMED_PARAM =
     \<lparr>re_seq = [Opt [Group 1 [One (Lit (ch CHR ''('')), One (Lit (ch CHR ''?''))]],
                One (Lit (ch CHR '':'')), Plus WordChar],
      re_global = False\<rparr>"

definition NAMED_PARAMS :: regexp where
  \<comment> \<open>\<^verbatim>\<open>/(\(\?)?:\w+/g\<close>\<close>
  "NAMED_PARAMS = NAMED_PARAM\<lparr>re_global := True\<rparr>"

definition ESCAPE :: regexp where
  \<comment> \<open>\<^verbatim>\<open>/[\-{}\[\]+?.,\\\^$|#\s]/g\<close>\<close>
  "ESCAPE =
     \<lparr>re_seq = [One (Bracket (map CChar (js ''-{}[]+?.,'') @ [CChar (ch CHR 0x5C)] @
                            map CChar (js ''^$|#'') @ [CSpace]))],
      re_global = True\<rparr>"

text \<open>
  The regular expressions are objects of the module, made once; a \<^verbatim>\<open>g\<close> one carries
  \<^verbatim>\<open>lastIndex\<close> from call to call. \<^verbatim>\<open>PARENTHESES\<close>, \<^verbatim>\<open>NAMED_PARAMS\<close> and \<^verbatim>\<open>ESCAPE\<close> are only
  ever handed to \<^verbatim>\<open>match\<close> and \<^verbatim>\<open>replace\<close>, which leave it 0; \<^verbatim>\<open>OPTIONAL_PARAMS\<close> and
  \<^verbatim>\<open>SPLAT_PARAMS\<close> are also used with \<^verbatim>\<open>test\<close>, which does not. The state of the module is the
  \<^verbatim>\<open>lastIndex\<close> of these two; it is 0 for both when the module is loaded.
\<close>

record rstate =
  li_OPTIONAL_PARAMS :: nat
  li_SPLAT_PARAMS :: nat

definition fresh :: rstate where
  "fresh = \<lparr>li_OPTIONAL_PARAMS = 0, li_SPLAT_PARAMS = 0\<rparr>"

subsection \<open>Argument sets\<close>

text \<open>
  What a caller passes as \<^verbatim>\<open>args\<close> or \<^verbatim>\<open>params\<close>: nothing (\<^verbatim>\<open>undefined\<close> or \<^verbatim>\<open>null\<close>), an array,
  or a plain object, given by its own enumerable properties in enumeration order.
  Reading a property the object does not have gives \<^verbatim>\<open>undefined\<close> (the properties that
  every object inherits are not modelled).
\<close>

datatype argset = NoArgs | Positional "jsval list" | Keyed "(jsstring \<times> jsval) list"

definition get_prop :: "(jsstring \<times> jsval) list \<Rightarrow> jsstring \<Rightarrow> jsval" where
  "get_prop kvs k = (case map_of kvs k of None \<Rightarrow> JUndefined | Some v \<Rightarrow> v)"

text \<open>
  \<^verbatim>\<open>v > 0\<close>. For a string the answer depends on the number the string spells, which is
  left open (\<open>None\<close>): \<open>isEmpty\<close> below gives the same result for either answer.
\<close>

fun gt_zero :: "jsval \<Rightarrow> bool option" where
  "gt_zero JUndefined = Some False"
| "gt_zero JNull = Some False"
| "gt_zero (JBool b) = Some b"
| "gt_zero (JNum n) = Some (n > 0)"
| "gt_zero (JStr s) = None"

text \<open>
  \<^verbatim>\<open>isArray\<close>; where the source branches on it, the functions below take the argument set
  apart by its constructors.
\<close>

fun isArray :: "argset \<Rightarrow> bool" where
  "isArray (Positional xs) = True"
| "isArray a = False"

text \<open>
  \<^verbatim>\<open>isEmpty\<close> reads \<^verbatim>\<open>obj.length\<close> of whatever it is given. For an object that is its
  property \<^verbatim>\<open>length\<close>, if it has one. When that is a string, \<^verbatim>\<open>obj.length > 0\<close> either
  returns false at once, or \<^verbatim>\<open>obj.length === 0\<close> is false (a string is not the number 0)
  and the loop finds the own key \<^verbatim>\<open>length\<close> and returns false.
\<close>

fun isEmpty :: "argset \<Rightarrow> bool" where
  "isEmpty NoArgs = True"
| "isEmpty (Positional xs) = (if length xs > 0 then False else True)"
| "isEmpty (Keyed kvs) =
     (if gt_zero (get_prop kvs (js ''length'')) = Some True then False
      else if get_prop kvs (js ''length'') = JNum 0 then True
      else if kvs \<noteq> [] then False
      else True)"

subsection \<open>Path parsing functions\<close>

definition removeOptionalParams :: "jsstring \<Rightarrow> rstate \<Rightarrow> jsstring \<times> rstate" where
  "removeOptionalParams p st =
     (replace_regexp OPTIONAL_PARAMS (Template []) p, st\<lparr>li_OPTIONAL_PARAMS := 0\<rparr>)"

definition removeTrailingSlash :: "jsstring \<Rightarrow> jsstring" where
  "removeTrailingSlash p = replace_regexp TRAILING_SLASH (Template []) p"

definition removeLeadingSlash :: "jsstring \<Rightarrow> jsstring" where
  "removeLeadingSlash p = replace_regexp LEADING_SLASH (Template []) p"

definition removeParentheses :: "jsstring \<Rightarrow> jsstring" where
  "removeParentheses p = replace_regexp PARENTHESES (Template []) p"

text \<open>
  \<^verbatim>\<open>NAMED_PARAM.test(param) || SPLAT_PARAMS.test(param)\<close>: the second test runs only when
  the first fails, from the \<^verbatim>\<open>lastIndex\<close> that \<^verbatim>\<open>SPLAT_PARAMS\<close> holds, and moves it.
\<close>

definition isNamedOrSplatParam :: "jsstring \<Rightarrow> rstate \<Rightarrow> bool \<times> rstate" where
  "isNamedOrSplatParam param st =
     (if fst (regexp_test NAMED_PARAM 0 param) then (True, st)
      else
        (case regexp_test SPLAT_PARAMS (li_SPLAT_PARAMS st) param of
           (r, li) \<Rightarrow> (r, st\<lparr>li_SPLAT_PARAMS := li\<rparr>)))"

definition replaceArg :: "jsstring \<Rightarrow> jsval \<Rightarrow> rstate \<Rightarrow> (error + jsstring) \<times> rstate" where
  "replaceArg p arg st =
     (let hasNamedParam = (ch CHR '':'' \<in> set p) in
      case encodeURIComponent arg of
        Inl e \<Rightarrow> (Inl e, st)
      | Inr a \<Rightarrow>
          if hasNamedParam then (Inr (replace_regexp NAMED_PARAM (Template a) p), st)
          else (Inr (replace_regexp SPLAT_PARAMS (Template a) p), st\<lparr>li_SPLAT_PARAMS := 0\<rparr>))"

text \<open>\<^verbatim>\<open>args.forEach(arg => { path = replaceArg(path, arg) })\<close>\<close>

fun inject :: "jsstring \<Rightarrow> jsval list \<Rightarrow> rstate \<Rightarrow> (error + jsstring) \<times> rstate" where
  "inject p [] st = (Inr p, st)"
| "inject p (arg # args) st =
     (case replaceArg p arg st of
        (Inl e, st') \<Rightarrow> (Inl e, st')
      | (Inr p', st') \<Rightarrow> inject p' args st')"

text \<open>
  \<^verbatim>\<open>matches.forEach(part => { if (isNamedOrSplatParam(part)) path = path.replace(part, '') })\<close>
\<close>

fun strip_parts :: "jsstring list \<Rightarrow> jsstring \<Rightarrow> rstate \<Rightarrow> jsstring \<times> rstate" where
  "strip_parts [] p st = (p, st)"
| "strip_parts (part # parts) p st =
     (case isNamedOrSplatParam part st of
        (True, st') \<Rightarrow> strip_parts parts (replace_string part [] p) st'
      | (False, st') \<Rightarrow> strip_parts parts p st')"

text \<open>
  The second half of \<^verbatim>\<open>replaceArgs\<close>: \<^verbatim>\<open>path.match(OPTIONAL_PARAMS)\<close> and the loop over
  the matches, when there are any.
\<close>

definition strip_unfilled :: "jsstring \<Rightarrow> rstate \<Rightarrow> jsstring \<times> rstate" where
  "strip_unfilled p st =
     (case match_global OPTIONAL_PARAMS p of
        None \<Rightarrow> (p, st\<lparr>li_OPTIONAL_PARAMS := 0\<rparr>)
      | Some matches \<Rightarrow> strip_parts matches p (st\<lparr>li_OPTIONAL_PARAMS := 0\<rparr>))"

text \<open>
  With an object, \<^verbatim>\<open>path.match(NAMED_PARAMS)\<close> is null when nothing matches and
  \<^verbatim>\<open>paramNames.map\<close> raises TypeError.
\<close>

definition replaceArgs :: "jsstring \<Rightarrow> argset \<Rightarrow> rstate \<Rightarrow> (error + jsstring) \<times> rstate" where
  "replaceArgs p args st =
     (case (case args of
              NoArgs \<Rightarrow> Inr []
            | Positional xs \<Rightarrow> Inr xs
            | Keyed kvs \<Rightarrow>
                (case match_global NAMED_PARAMS p of
                   None \<Rightarrow> Inl TypeError
                 | Some paramNames \<Rightarrow> Inr (map (\<lambda>name. get_prop kvs (drop 1 name)) paramNames))) of
        Inl e \<Rightarrow> (Inl e, st)
      | Inr vals \<Rightarrow>
          (case inject p vals st of
             (Inl e, st') \<Rightarrow> (Inl e, st')
           | (Inr p', st') \<Rightarrow> (case strip_unfilled p' st' of (p'', st'') \<Rightarrow> (Inr p'', st''))))"

text \<open>\<^verbatim>\<open>parse (path, args)\<close>; an absent path is \<^verbatim>\<open>''\<close> and absent arguments are \<^verbatim>\<open>[]\<close>.\<close>

definition parse :: "jsstring option \<Rightarrow> argset \<Rightarrow> rstate \<Rightarrow> (error + jsstring) \<times> rstate" where
  "parse path0 args0 st =
     (let p = (case path0 of None \<Rightarrow> [] | Some q \<Rightarrow> q);
          args = (case args0 of NoArgs \<Rightarrow> Positional [] | a \<Rightarrow> a)
      in
        if isEmpty args then (case removeOptionalParams p st of (q, st') \<Rightarrow> (Inr q, st'))
        else
          (case replaceArgs p args st of
             (Inl e, st') \<Rightarrow> (Inl e, st')
           | (Inr q, st') \<Rightarrow> (Inr (removeTrailingSlash (removeParentheses q)), st')))"

subsection \<open>Helper functions\<close>

definition smartConcat :: "jsstring \<Rightarrow> jsstring \<Rightarrow> jsstring \<Rightarrow> jsstring option \<Rightarrow> jsstring" where
  "smartConcat host0 path0 query0 hash0 =
     (let h = removeTrailingSlash host0;
          p = removeTrailingSlash (removeLeadingSlash path0);
          p' = (if p \<noteq> [] then ch CHR ''/'' # p else []);
          q' = (if query0 \<noteq> [] then ch CHR ''?'' # query0 else []);
          f' = (case hash0 of
                  None \<Rightarrow> []
                | Some f \<Rightarrow> if f \<noteq> [] then ch CHR ''#'' # f else [])
      in h @ p' @ q' @ f')"

text \<open>One analysed parameter of \<^verbatim>\<open>stats\<close>: \<^verbatim>\<open>{ name, value, optional, required }\<close>.\<close>

record descriptor =
  p_name :: jsstring
  p_value :: jsval
  p_optional :: bool
  p_required :: bool

datatype field = F_optional | F_required | F_name

fun field_truthy :: "field \<Rightarrow> descriptor \<Rightarrow> bool" where
  "field_truthy F_optional p = p_optional p"
| "field_truthy F_required p = p_required p"
| "field_truthy F_name p = (p_name p \<noteq> [])"

fun testParameter :: "descriptor list \<Rightarrow> field \<Rightarrow> descriptor list" where
  "testParameter [] f = []"
| "testParameter (p # ps) f =
     (if field_truthy f p \<and> p_value p = JStr [] then p # testParameter ps f
      else testParameter ps f)"

subsection \<open>Public API functions\<close>

definition getParamsMatch :: "jsstring \<Rightarrow> rstate \<Rightarrow> (jsstring list \<times> jsstring list) \<times> rstate" where
  "getParamsMatch p st =
     (((case match_global NAMED_PARAMS p of None \<Rightarrow> [] | Some ms \<Rightarrow> ms),
       (case match_global SPLAT_PARAMS p of None \<Rightarrow> [] | Some ms \<Rightarrow> ms)),
      st\<lparr>li_SPLAT_PARAMS := 0\<rparr>)"

text \<open>
  The four rewriting steps of \<^verbatim>\<open>routeToRegex\<close>, and the text it hands to the \<^verbatim>\<open>RegExp\<close>
  constructor.
\<close>

definition escape_step :: "jsstring \<Rightarrow> jsstring" where
  \<comment> \<open>\<^verbatim>\<open>.replace(ESCAPE, '\\$&')\<close>\<close>
  "escape_step route = replace_regexp ESCAPE (Template (ch CHR 0x5C # js ''$&'')) route"

definition optional_step :: "jsstring \<Rightarrow> jsstring" where
  \<comment> \<open>\<^verbatim>\<open>.replace(OPTIONAL_PARAMS, '(?:$1)?')\<close>\<close>
  "optional_step route = replace_regexp OPTIONAL_PARAMS (Template (js ''(?:$1)?'')) route"

definition named_step :: "jsstring \<Rightarrow> jsstring" where
  \<comment> \<open>\<^verbatim>\<open>.replace(NAMED_PARAMS, (match, optional) => optional ? match : '([^/?]+)')\<close>\<close>
  "named_step route =
     replace_regexp NAMED_PARAMS
       (Callback (\<lambda>mtch optional.
          if (case optional of None \<Rightarrow> False | Some g \<Rightarrow> g \<noteq> []) then mtch
          else js ''([^/?]+)''))
       route"

definition splat_step :: "jsstring \<Rightarrow> jsstring" where
  \<comment> \<open>\<^verbatim>\<open>.replace(SPLAT_PARAMS, '([^?]*?)')\<close>\<close>
  "splat_step route = replace_regexp SPLAT_PARAMS (Template (js ''([^?]*?)'')) route"

definition query_tail :: jsstring where
  \<comment> \<open>\<^verbatim>\<open>'(?:\\?([\\s\\S]*))?$'\<close>\<close>
  "query_tail = js ''(?:'' @ [ch CHR 0x5C] @ js ''?(['' @ [ch CHR 0x5C] @ js ''s'' @
                [ch CHR 0x5C] @ js ''S]*))?$''"

definition regex_source :: "jsstring \<Rightarrow> jsstring" where
  "regex_source route =
     ch CHR ''^'' # splat_step (named_step (optional_step (escape_step route))) @ query_tail"

text \<open>
  The \<^verbatim>\<open>RegExp\<close> constructor on the texts \<^verbatim>\<open>routeToRegex\<close> assembles: literals, identity
  escapes, \<^verbatim>\<open>.\<close>, \<^verbatim>\<open>^\<close>, \<^verbatim>\<open>$\<close>, classes of characters, \<^verbatim>\<open>\s\<close> and \<^verbatim>\<open>\S\<close>, groups
  \<^verbatim>\<open>(...)\<close> and \<^verbatim>\<open>(?:...)\<close>, \<^verbatim>\<open>?\<close> after an atom or a group, \<^verbatim>\<open>*\<close>, \<^verbatim>\<open>+\<close> and \<^verbatim>\<open>*?\<close> after a
  one-character atom. One pass over the text, with the open groups on a stack.
\<close>

datatype frame_kind = FCap nat | FNonCap

datatype qstate = QNone | QAtom | QGroup | QGreedy

fun rx :: "jsstring \<Rightarrow> (bool \<times> citem list) option \<Rightarrow> (frame_kind \<times> re list) list \<Rightarrow>
           re list \<Rightarrow> qstate \<Rightarrow> nat \<Rightarrow> error + re list" where
  "rx [] br stack cur q n =
     (if br = None \<and> stack = [] then Inr (rev cur) else Inl NoRegExp)"
| "rx (x # xs) (Some (neg, items)) stack cur q n =
     (if x = ch CHR '']'' then
        rx xs None stack (One ((if neg then NegBracket else Bracket) (rev items)) # cur) QAtom n
      else if x = ch CHR 0x5C then
        (case xs of
           [] \<Rightarrow> Inl NoRegExp
         | d # ds \<Rightarrow>
             if d = ch CHR ''s'' then rx ds (Some (neg, CSpace # items)) stack cur q n
             else if d = ch CHR ''S'' then rx ds (Some (neg, CNonSpace # items)) stack cur q n
             else if \<not> is_word d then rx ds (Some (neg, CChar d # items)) stack cur q n
             else Inl NoRegExp)
      else if x = ch CHR ''-'' then Inl NoRegExp
      else rx xs (Some (neg, CChar x # items)) stack cur q n)"
| "rx (x # xs) None stack cur q n =
     (if x = ch CHR ''('' then
        (case xs of
           y # ys \<Rightarrow>
             if y = ch CHR ''?'' then
               (case ys of
                  z # zs \<Rightarrow>
                    if z = ch CHR '':'' then rx zs None ((FNonCap, cur) # stack) [] QNone n
                    else Inl NoRegExp
                | [] \<Rightarrow> Inl NoRegExp)
             else rx xs None ((FCap (Suc n), cur) # stack) [] QNone (Suc n)
         | [] \<Rightarrow> Inl NoRegExp)
      else if x = ch CHR '')'' then
        (case stack of
           [] \<Rightarrow> Inl NoRegExp
         | (FCap k, outer) # stack' \<Rightarrow> rx xs None stack' (Group k (rev cur) # outer) QGroup n
         | (FNonCap, outer) # stack' \<Rightarrow> rx xs None stack' (NonCap (rev cur) # outer) QGroup n)
      else if x = ch CHR ''?'' then
        (case (q, cur) of
           (QAtom, r # rs) \<Rightarrow> rx xs None stack (Opt [r] # rs) QNone n
         | (QGroup, r # rs) \<Rightarrow> rx xs None stack (Opt [r] # rs) QNone n
         | (QGreedy, Star a # rs) \<Rightarrow> rx xs None stack (LazyStar a # rs) QNone n
         | _ \<Rightarrow> Inl NoRegExp)
      else if x = ch CHR ''*'' then
        (case (q, cur) of
           (QAtom, One a # rs) \<Rightarrow> rx xs None stack (Star a # rs) QGreedy n
         | _ \<Rightarrow> Inl NoRegExp)
      else if x = ch CHR ''+'' then
        (case (q, cur) of
           (QAtom, One a # rs) \<Rightarrow> rx xs None stack (Plus a # rs) QGreedy n
         | _ \<Rightarrow> Inl NoRegExp)
      else if x = ch CHR ''^'' then rx xs None stack (Bol # cur) QNone n
      else if x = ch CHR ''$'' then rx xs None stack (Eol # cur) QNone n
      else if x = ch CHR ''.'' then rx xs None stack (One AnyChar # cur) QAtom n
      else if x = ch CHR ''['' then
        (case xs of
           y # ys \<Rightarrow>
             if y = ch CHR ''^'' then rx ys (Some (True, [])) stack cur q n
             else rx xs (Some (False, [])) stack cur q n
         | [] \<Rightarrow> Inl NoRegExp)
      else if x = ch CHR 0x5C then
        (case xs of
           [] \<Rightarrow> Inl NoRegExp
         | d # ds \<Rightarrow>
             if \<not> is_word d then rx ds None stack (One (Lit d) # cur) QAtom n
             else Inl NoRegExp)
      else if x \<in> set (js ''{}]|'') then Inl NoRegExp
      else rx xs None stack (One (Lit x) # cur) QAtom n)"

definition RegExp_new :: "jsstring \<Rightarrow> error + regexp" where
  "RegExp_new src =
     (case rx src None [] [] QNone 0 of
        Inl e \<Rightarrow> Inl e
      | Inr r \<Rightarrow> Inr \<lparr>re_seq = r, re_global = False\<rparr>)"

definition routeToRegex :: "jsstring \<Rightarrow> rstate \<Rightarrow> (error + regexp) \<times> rstate" where
  "routeToRegex route st =
     (RegExp_new (regex_source route), st\<lparr>li_OPTIONAL_PARAMS := 0, li_SPLAT_PARAMS := 0\<rparr>)"

text \<open>
  The options object of \<^verbatim>\<open>build\<close>, \<^verbatim>\<open>path\<close>, \<^verbatim>\<open>query\<close> and \<^verbatim>\<open>test\<close>; \<open>None\<close> is a key that is
  not given. The query is the object's own enumerable properties in enumeration order.
\<close>

record options =
  opt_host :: "jsstring option"
  opt_path :: "jsstring option"
  opt_params :: argset
  opt_query :: "(jsstring \<times> jsval) list"
  opt_hash :: "jsstring option"
  opt_url :: "jsstring option"

definition no_options :: options where
  \<comment> \<open>\<^verbatim>\<open>{}\<close>, and what \<^verbatim>\<open>options || {}\<close> makes of no options at all\<close>
  "no_options = \<lparr>opt_host = None, opt_path = None, opt_params = NoArgs, opt_query = [],
                 opt_hash = None, opt_url = None\<rparr>"

definition buildPath :: "options \<Rightarrow> rstate \<Rightarrow> (error + jsstring) \<times> rstate" where
  "buildPath opts st = parse (opt_path opts) (opt_params opts) st"

fun join :: "jsstring \<Rightarrow> jsstring list \<Rightarrow> jsstring" where
  "join sep [] = []"
| "join sep [x] = x"
| "join sep (x # y # ys) = x @ sep @ join sep (y # ys)"

fun query_pairs :: "(jsstring \<times> jsval) list \<Rightarrow> error + jsstring list" where
  "query_pairs [] = Inr []"
| "query_pairs ((k, v) # kvs) =
     (case encodeURIComponent v of
        Inl e \<Rightarrow> Inl e
      | Inr a \<Rightarrow>
          (case query_pairs kvs of
             Inl e \<Rightarrow> Inl e
           | Inr r \<Rightarrow> Inr ((k @ ch CHR ''='' # a) # r)))"

definition buildQuery :: "options \<Rightarrow> error + jsstring" where
  "buildQuery opts =
     (case query_pairs (opt_query opts) of
        Inl e \<Rightarrow> Inl e
      | Inr qs \<Rightarrow> Inr (if length qs \<noteq> 0 then join (js ''&'') qs else []))"

text \<open>\<^verbatim>\<open>test\<close>: without a path \<^verbatim>\<open>route.replace\<close> raises TypeError; without a url the text
  \<^verbatim>\<open>undefined\<close> is tested.\<close>

definition test :: "options \<Rightarrow> rstate \<Rightarrow> (error + bool) \<times> rstate" where
  "test opts st =
     (case opt_path opts of
        None \<Rightarrow> (Inl TypeError, st)
      | Some route \<Rightarrow>
          (case routeToRegex route st of
             (Inl e, st') \<Rightarrow> (Inl e, st')
           | (Inr r, st') \<Rightarrow>
               (Inr (fst (regexp_test r 0
                  (case opt_url opts of None \<Rightarrow> js ''undefined'' | Some u \<Rightarrow> u))), st')))"

definition build :: "options \<Rightarrow> rstate \<Rightarrow> (error + jsstring) \<times> rstate" where
  "build opts st =
     (let h = (case opt_host opts of None \<Rightarrow> [] | Some x \<Rightarrow> x) in
      case buildPath opts st of
        (Inl e, st') \<Rightarrow> (Inl e, st')
      | (Inr p, st') \<Rightarrow>
          (case buildQuery opts of
             Inl e \<Rightarrow> (Inl e, st')
           | Inr q \<Rightarrow> (Inr (smartConcat h p q (opt_hash opts)), st')))"

text \<open>
  \<^verbatim>\<open>paramsArray2Object\<close>: \<^verbatim>\<open>result[name.slice(1)] = args[i++]\<close> for the named and then the
  splat parameters; reading an array past its end gives \<^verbatim>\<open>undefined\<close>.
\<close>

fun assign_params :: "jsstring list \<Rightarrow> jsval list \<Rightarrow> (jsstring \<times> jsval) list \<Rightarrow> (jsstring \<times> jsval) list" where
  "assign_params [] args result = result"
| "assign_params (name # names) args result =
     assign_params names (drop 1 args)
       (AList.update (drop 1 name) (case args of [] \<Rightarrow> JUndefined | a # as \<Rightarrow> a) result)"

definition paramsArray2Object :: "jsstring \<Rightarrow> jsval list \<Rightarrow> rstate \<Rightarrow> (jsstring \<times> jsval) list \<times> rstate" where
  "paramsArray2Object p args st =
     (case getParamsMatch p st of
        ((named, splat), st') \<Rightarrow> (assign_params (named @ splat) args [], st'))"

record stats_report =
  params :: "descriptor list"
  hasOptionalParams :: bool
  missingOptionalParams :: "descriptor list"
  missingRequiredParams :: "descriptor list"
  missingParams :: "descriptor list"

definition describe :: "jsstring list \<Rightarrow> (jsstring \<times> jsval) list \<Rightarrow> jsstring \<Rightarrow> descriptor" where
  "describe optional args param =
     (let isOptional = list_ex (\<lambda>p. includes_str p param) optional;
          v = get_prop args (drop 1 param)
      in \<lparr>p_name = param, p_value = (if truthy v then v else JStr []),
          p_optional = isOptional, p_required = (\<not> isOptional)\<rparr>)"

definition stats :: "jsstring \<Rightarrow> argset \<Rightarrow> rstate \<Rightarrow> stats_report \<times> rstate" where
  "stats p args0 st =
     (let optional = (case match_global OPTIONAL_PARAMS p of None \<Rightarrow> [] | Some ms \<Rightarrow> ms);
          st1 = st\<lparr>li_OPTIONAL_PARAMS := 0\<rparr>
      in
        case getParamsMatch p st1 of
          ((named, splat), st2) \<Rightarrow>
            (case (case args0 of
                     NoArgs \<Rightarrow> ([], st2)
                   | Keyed kvs \<Rightarrow> (kvs, st2)
                   | Positional xs \<Rightarrow> paramsArray2Object p xs st2) of
               (args, st3) \<Rightarrow>
                 (let ps = map (describe optional args) (named @ splat) in
                  case regexp_test OPTIONAL_PARAMS (li_OPTIONAL_PARAMS st3) p of
                    (r, li) \<Rightarrow>
                      (\<lparr>params = ps, hasOptionalParams = r,
                        missingOptionalParams = testParameter ps F_optional,
                        missingRequiredParams = testParameter ps F_required,
                        missingParams = testParameter ps F_name\<rparr>,
                       st3\<lparr>li_OPTIONAL_PARAMS := li\<rparr>))))"

section \<open>Patterns as the specification reads them\<close>

text \<open>
  What the specification says of the assembly: a part without one trailing slash, a part
  without one leading slash, and a part with its glue character before it when it is not
  empty.
\<close>

definition drop_trailing_slash :: "jsstring \<Rightarrow> jsstring" where
  "drop_trailing_slash s = (if s \<noteq> [] \<and> last s = ch CHR ''/'' then butlast s else s)"

definition drop_leading_slash :: "jsstring \<Rightarrow> jsstring" where
  "drop_leading_slash s = (case s of [] \<Rightarrow> [] | x # xs \<Rightarrow> if x = ch CHR ''/'' then xs else s)"

definition glue :: "jschar \<Rightarrow> jsstring \<Rightarrow> jsstring" where
  "glue c s = (if s \<noteq> [] then c # s else [])"

text \<open>
  A token is a sigil followed by one or more word characters, as long as they go.
  \<open>token_at a s\<close> is the token with the sigil \<open>a\<close> at the head of \<open>s\<close>, and the text after it;
  \<open>guarded_token_at p q a s\<close> is the token that stands right after the two characters
  \<open>p\<close> and \<open>q\<close> at the head of \<open>s\<close>.
\<close>

fun token_at :: "jschar \<Rightarrow> jsstring \<Rightarrow> (jsstring \<times> jsstring) option" where
  "token_at a (x # y # ys) =
     (if x = a \<and> is_word y then Some (x # y # takeWhile is_word ys, dropWhile is_word ys)
      else None)"
| "token_at a s = None"

fun guarded_token_at :: "jschar \<Rightarrow> jschar \<Rightarrow> jschar \<Rightarrow> jsstring \<Rightarrow> (jsstring \<times> jsstring) option" where
  "guarded_token_at p q a (x # y # ys) = (if x = p \<and> y = q then token_at a ys else None)"
| "guarded_token_at p q a s = None"

text \<open>
  A named parameter is a token with the sigil \<^verbatim>\<open>:\<close>, a splat parameter a token with the
  sigil \<^verbatim>\<open>*\<close>; \<open>guarded_at\<close> finds a named parameter right after \<^verbatim>\<open>(?\<close>.
\<close>

definition named_at :: "jsstring \<Rightarrow> (jsstring \<times> jsstring) option" where
  "named_at = token_at (ch CHR '':'')"

definition splat_at :: "jsstring \<Rightarrow> (jsstring \<times> jsstring) option" where
  "splat_at = token_at (ch CHR ''*'')"

definition guarded_at :: "jsstring \<Rightarrow> (jsstring \<times> jsstring) option" where
  "guarded_at = guarded_token_at (ch CHR ''('') (ch CHR ''?'') (ch CHR '':'')"

lemma token_at_split: "token_at a inp = Some (tok, rest) \<Longrightarrow> inp = tok @ rest \<and> tok \<noteq> []"
  by (induction a inp rule: token_at.induct) (auto split: if_splits)

lemma guarded_token_at_split:
  "guarded_token_at p q a inp = Some (tok, rest) \<Longrightarrow> inp = p # q # tok @ rest \<and> tok \<noteq> []"
  by (induction p q a inp rule: guarded_token_at.induct)
     (auto split: if_splits dest: token_at_split)

lemma token_at_length: "token_at a inp = Some (tok, rest) \<Longrightarrow> length rest < length inp"
  by (induction a inp rule: token_at.induct)
     (auto split: if_splits intro!: le_imp_less_Suc le_SucI length_dropWhile_le)

lemma guarded_token_at_length:
  "guarded_token_at p q a inp = Some (tok, rest) \<Longrightarrow> length rest < length inp"
  by (induction p q a inp rule: guarded_token_at.induct)
     (auto split: if_splits dest!: token_at_length)

lemma named_at_split: "named_at inp = Some (tok, rest) \<Longrightarrow> inp = tok @ rest \<and> tok \<noteq> []"
  unfolding named_at_def by (rule token_at_split)


lemma guarded_at_split:
  "guarded_at inp = Some (tok, rest) \<Longrightarrow> inp = js ''(?'' @ tok @ rest \<and> tok \<noteq> []"
  unfolding guarded_at_def by (drule guarded_token_at_split) (simp add: js_def)

lemma named_at_length: "named_at inp = Some (tok, rest) \<Longrightarrow> length rest < length inp"
  unfolding named_at_def by (rule token_at_length)

lemma splat_at_length: "splat_at inp = Some (tok, rest) \<Longrightarrow> length rest < length inp"
  unfolding splat_at_def by (rule token_at_length)

lemma guarded_at_length: "guarded_at inp = Some (tok, rest) \<Longrightarrow> length rest < length inp"
  unfolding guarded_at_def by (rule guarded_token_at_length)

text \<open>
  The named-parameter tokens of a pattern in reading order, each with the \<^verbatim>\<open>(?\<close> before it
  when there is one, and its splat tokens.
\<close>

function named_tokens :: "jsstring \<Rightarrow> jsstring list" where
  "named_tokens [] = []"
| "named_tokens (x # xs) =
     (case guarded_at (x # xs) of
        Some (tok, rest) \<Rightarrow> (js ''(?'' @ tok) # named_tokens rest
      | None \<Rightarrow>
          (case named_at (x # xs) of
             Some (tok, rest) \<Rightarrow> tok # named_tokens rest
           | None \<Rightarrow> named_tokens xs))"
  by pat_completeness auto
termination
  by (relation "measure length") (auto dest: named_at_length guarded_at_length)


text \<open>
  The third step of the regular-expression compiler as the specification words it: a
  named-parameter token right after \<^verbatim>\<open>(?\<close> is left as it is, every other one becomes the
  capture group \<^verbatim>\<open>([^/?]+)\<close>.
\<close>

function named_spec :: "jsstring \<Rightarrow> jsstring" where
  "named_spec [] = []"
| "named_spec (x # xs) =
     (case guarded_at (x # xs) of
        Some (tok, rest) \<Rightarrow> js ''(?'' @ tok @ named_spec rest
      | None \<Rightarrow>
          (case named_at (x # xs) of
             Some (tok, rest) \<Rightarrow> js ''([^/?]+)'' @ named_spec rest
           | None \<Rightarrow> x # named_spec xs))"
  by pat_completeness auto
termination
  by (relation "measure length") (auto dest: named_at_length guarded_at_length)


function subst_all_splat :: "jsstring \<Rightarrow> jsstring \<Rightarrow> jsstring" where
  "subst_all_splat e [] = []"
| "subst_all_splat e (x # xs) =
     (case splat_at (x # xs) of
        Some (tok, rest) \<Rightarrow> e @ subst_all_splat e rest
      | None \<Rightarrow> x # subst_all_splat e xs)"
  by pat_completeness auto
termination
  by (relation "measure (\<lambda>(e, s). length s)") (auto dest: splat_at_length)

text \<open>
  An optional group: an opening parenthesis, the text up to the next closing
  parenthesis, and that parenthesis. \<open>scan_to bad q s\<close> is the text of \<open>s\<close> before the first
  \<open>q\<close> and the text after it, when no character of \<open>bad\<close> comes before that \<open>q\<close>.
\<close>

fun scan_to :: "(jschar \<Rightarrow> bool) \<Rightarrow> jschar \<Rightarrow> jsstring \<Rightarrow> (jsstring \<times> jsstring) option" where
  "scan_to bad q [] = None"
| "scan_to bad q (y # ys) =
     (if y = q then Some ([], ys)
      else if bad y then None
      else (case scan_to bad q ys of Some (g, rest) \<Rightarrow> Some (y # g, rest) | None \<Rightarrow> None))"

fun group_at :: "(jschar \<Rightarrow> bool) \<Rightarrow> jsstring \<Rightarrow> (jsstring \<times> jsstring) option" where
  "group_at bad [] = None"
| "group_at bad (x # xs) = (if x = ch CHR ''('' then scan_to bad (ch CHR '')'') xs else None)"

lemma group_at_Nil: "group_at bad [] = None"
  by simp

lemma group_at_Cons:
  "group_at bad (x # xs) = (if x = ch CHR ''('' then scan_to bad (ch CHR '')'') xs else None)"
  by simp

declare group_at.simps [simp del]

lemma scan_to_split: "scan_to bad q inp = Some (g, rest) \<Longrightarrow> inp = g @ q # rest"
  by (induction bad q inp arbitrary: g rule: scan_to.induct) (auto split: if_splits option.splits)

lemma scan_to_length: "scan_to bad q inp = Some (g, rest) \<Longrightarrow> length rest < length inp"
  by (drule scan_to_split) simp

lemma group_at_scan:
  assumes "group_at bad inp = Some (g, rest)"
  shows "\<exists>xs. inp = ch CHR ''('' # xs \<and> scan_to bad (ch CHR '')'') xs = Some (g, rest)"
proof (cases inp)
  case Nil
  with assms show ?thesis by (simp add: group_at_Nil)
next
  case (Cons x xs)
  with assms have "x = ch CHR ''(''" by (simp add: group_at_Cons split: if_splits)
  moreover from Cons assms have "scan_to bad (ch CHR '')'') xs = Some (g, rest)"
    by (simp add: group_at_Cons split: if_splits)
  ultimately show ?thesis using Cons by blast
qed

lemma group_at_length:
  assumes "group_at bad inp = Some (g, rest)"
  shows "length rest < length inp"
proof -
  from group_at_scan [OF assms] obtain xs
    where "inp = ch CHR ''('' # xs" "scan_to bad (ch CHR '')'') xs = Some (g, rest)" by blast
  with scan_to_length [of bad "ch CHR '')''" xs g rest] show ?thesis by simp
qed

text \<open>
  A pattern without its optional groups. \<open>strip_groups\<close> takes the groups that hold no
  line terminator; \<open>spec_remove_groups\<close> takes every parenthesized group, as the
  specification words it.
\<close>

function remove_groups :: "(jschar \<Rightarrow> bool) \<Rightarrow> jsstring \<Rightarrow> jsstring" where
  "remove_groups bad [] = []"
| "remove_groups bad (x # xs) =
     (case group_at bad (x # xs) of
        Some (g, rest) \<Rightarrow> remove_groups bad rest
      | None \<Rightarrow> x # remove_groups bad xs)"
  by pat_completeness auto
termination
  by (relation "measure (\<lambda>(bad, s). length s)") (auto dest: group_at_length)

definition strip_groups :: "jsstring \<Rightarrow> jsstring" where
  "strip_groups = remove_groups is_line_terminator"

definition spec_remove_groups :: "jsstring \<Rightarrow> jsstring" where
  "spec_remove_groups = remove_groups (\<lambda>c. False)"

text \<open>
  A string without an unpaired surrogate, the text \<^verbatim>\<open>encodeURIComponent\<close> returns for a
  value when it returns, and the values an argument set holds.
\<close>

fun well_formed :: "jsstring \<Rightarrow> bool" where
  "well_formed [] = True"
| "well_formed (c # cs) =
     (if is_trail_surrogate c then False
      else if is_lead_surrogate c then
        (case cs of [] \<Rightarrow> False | d # ds \<Rightarrow> is_trail_surrogate d \<and> well_formed ds)
      else well_formed cs)"


fun values_of :: "argset \<Rightarrow> jsval list" where
  "values_of NoArgs = []"
| "values_of (Positional xs) = xs"
| "values_of (Keyed kvs) = map snd kvs"

section \<open>Facts about the scan\<close>

lemma segs_Nil_miss: "bt r b [] no_caps = None \<Longrightarrow> segs r b [] = [Gap []]"
  by (subst segs.simps) simp

lemma segs_hd: "\<exists>g ss. segs r b inp = Gap g # ss"
  by (subst segs.simps) (auto split: option.splits)

lemma segs_Cons_hit:
  assumes "bt r b (x # xs) no_caps = Some (rest, c)" and "length rest < Suc (length xs)"
  shows "segs r b (x # xs) =
           Gap [] # Hit (take (Suc (length xs) - length rest) (x # xs)) c # segs r False rest"
  using assms by (subst segs.simps) simp

lemma segs_Cons_miss:
  assumes "bt r b (x # xs) no_caps = None" and "segs r False xs = Gap g # ss"
  shows "segs r b (x # xs) = Gap (x # g) # ss"
proof (cases "search r False xs")
  case None
  with assms show ?thesis by (subst segs.simps, subst (asm) segs.simps) simp
next
  case (Some m)
  obtain pre mt post c where m: "m = (pre, mt, post, c)" by (cases m)
  from Some m assms(2) have "segs r False xs = Gap pre # Hit mt c #
            (if mt = [] then (case post of [] \<Rightarrow> [] | y # ys \<Rightarrow> Gap [y] # segs r False ys)
             else segs r False post)"
    by (subst segs.simps) simp
  moreover from Some m assms(1) have "segs r b (x # xs) = Gap (x # pre) # Hit mt c #
            (if mt = [] then (case post of [] \<Rightarrow> [] | y # ys \<Rightarrow> Gap [y] # segs r False ys)
             else segs r False post)"
    by (subst segs.simps) simp
  ultimately show ?thesis using assms(2) by simp
qed

lemma orig_segs: "orig (segs r b inp) = inp"
proof (induction r b inp rule: segs.induct)
  case (1 r b inp)
  show ?case
  proof (cases "search r b inp")
    case None
    then show ?thesis by (subst segs.simps) simp
  next
    case (Some m)
    obtain pre mt post c where m: "m = (pre, mt, post, c)" by (cases m)
    from Some m have sp: "inp = pre @ mt @ post" by (auto dest: search_split)
    show ?thesis
    proof (cases "mt = []")
      case True
      show ?thesis
      proof (cases post)
        case Nil
        with Some m True sp show ?thesis by (subst segs.simps) simp
      next
        case (Cons y ys)
        with 1(1) [OF Some] m True have "orig (segs r False ys) = ys" by simp
        with Some m True sp Cons show ?thesis by (subst segs.simps) simp
      qed
    next
      case False
      with 1(2) [OF Some] m have "orig (segs r False post) = post" by simp
      with Some m False sp show ?thesis by (subst segs.simps) simp
    qed
  qed
qed

lemma render_Nil_miss: "bt r b [] no_caps = None \<Longrightarrow> render rp m bef (segs r b []) = []"
  by (simp add: segs_Nil_miss)

lemma render_Cons_hit:
  assumes "bt r b (x # xs) no_caps = Some (rest, c)" and "length rest < Suc (length xs)"
  shows "render rp m bef (segs r b (x # xs)) =
           substitute rp m (take (Suc (length xs) - length rest) (x # xs)) c bef rest @
           render rp m (bef @ take (Suc (length xs) - length rest) (x # xs)) (segs r False rest)"
  using assms by (simp add: segs_Cons_hit orig_segs)

lemma render_Cons_miss:
  assumes "bt r b (x # xs) no_caps = None"
  shows "render rp m bef (segs r b (x # xs)) = x # render rp m (bef @ [x]) (segs r False xs)"
proof -
  obtain g ss where g: "segs r False xs = Gap g # ss" using segs_hd by blast
  with assms show ?thesis by (simp add: segs_Cons_miss)
qed

lemma hits_Nil_miss: "bt r b [] no_caps = None \<Longrightarrow> hits (segs r b []) = []"
  by (simp add: segs_Nil_miss)

lemma hits_Cons_hit:
  assumes "bt r b (x # xs) no_caps = Some (rest, c)" and "length rest < Suc (length xs)"
  shows "hits (segs r b (x # xs)) =
           take (Suc (length xs) - length rest) (x # xs) # hits (segs r False rest)"
  using assms by (simp add: segs_Cons_hit)

lemma hits_Cons_miss:
  assumes "bt r b (x # xs) no_caps = None"
  shows "hits (segs r b (x # xs)) = hits (segs r False xs)"
proof -
  obtain g ss where g: "segs r False xs = Gap g # ss" using segs_hd by blast
  with assms show ?thesis by (simp add: segs_Cons_miss)
qed

section \<open>What the regular expressions of the module match\<close>

lemma bt_Star_end: "bt [Star a] b inp c = Some (dropWhile (atom_match a) inp, c)"
  by (induction inp arbitrary: b) auto

lemma bt_Plus_end:
  "bt [Plus a] b inp c =
     (case inp of [] \<Rightarrow> None
      | x # xs \<Rightarrow> if atom_match a x then Some (dropWhile (atom_match a) xs, c) else None)"
  by (cases inp) (auto simp: bt_Star_end)

lemma bt_One_only:
  "bt [One a] b inp c =
     (case inp of [] \<Rightarrow> None | x # xs \<Rightarrow> if atom_match a x then Some (xs, c) else None)"
  by (cases inp) auto

lemma atom_match_WordChar: "atom_match WordChar = is_word"
  by (rule ext) simp

lemma render_single_char_delete:
  "render (Template []) m bef (segs [One a] b inp) = filter (\<lambda>c. \<not> atom_match a c) inp"
proof (induction inp arbitrary: b bef)
  case Nil
  show ?case by (simp add: render_Nil_miss)
next
  case (Cons x xs)
  show ?case
  proof (cases "atom_match a x")
    case True
    then have "bt [One a] b (x # xs) no_caps = Some (xs, no_caps)" by simp
    from render_Cons_hit [OF this, of "Template []" m bef] True Cons.IH show ?thesis by simp
  next
    case False
    then have "bt [One a] b (x # xs) no_caps = None" by simp
    from render_Cons_miss [OF this, of "Template []" m bef] False Cons.IH show ?thesis by simp
  qed
qed

lemma removeParentheses_filter:
  "removeParentheses p = filter (\<lambda>c. c \<noteq> ch CHR ''('' \<and> c \<noteq> ch CHR '')'') p"
  by (simp add: removeParentheses_def replace_regexp_def PARENTHESES_def render_single_char_delete)

lemma search_trailing:
  "search [One (Lit a), Eol] b inp =
     (if inp \<noteq> [] \<and> last inp = a then Some (butlast inp, [a], [], no_caps) else None)"
proof (induction inp arbitrary: b)
  case Nil
  show ?case by simp
next
  case (Cons x xs)
  show ?case
  proof (cases "x = a \<and> xs = []")
    case True
    then show ?thesis by simp
  next
    case False
    then have "bt [One (Lit a), Eol] b (x # xs) no_caps = None" by auto
    with Cons.IH [of False] False show ?thesis by auto
  qed
qed

lemma removeTrailingSlash_eq: "removeTrailingSlash p = drop_trailing_slash p"
  by (simp add: removeTrailingSlash_def replace_regexp_def TRAILING_SLASH_def search_trailing
      drop_trailing_slash_def)

lemma search_Bol_False: "search (Bol # rs) False inp = None"
  by (induction inp) auto

lemma removeLeadingSlash_eq: "removeLeadingSlash p = drop_leading_slash p"
  by (cases p) (auto simp: removeLeadingSlash_def replace_regexp_def LEADING_SLASH_def
      search_Bol_False drop_leading_slash_def)

lemma bt_token:
  "bt [One (Lit a), Plus WordChar] b inp c =
     (case token_at a inp of Some (tok, rest) \<Rightarrow> Some (rest, c) | None \<Rightarrow> None)"
proof (induction a inp rule: token_at.induct)
  case (1 a x y ys)
  have "bt [Plus WordChar] False (y # ys) c =
          (if is_word y then Some (dropWhile is_word ys, c) else None)"
    by (simp add: bt_Plus_end atom_match_WordChar del: bt.simps)
  then show ?case by simp
qed simp_all

lemma bt_guarded_token:
  "bt [Opt [Group k [One (Lit p), One (Lit q)]], One (Lit a), Plus WordChar] b inp [] =
     (case guarded_token_at p q a inp of
        Some (tok, rest) \<Rightarrow> Some (rest, [(k, [p, q])])
      | None \<Rightarrow> (case token_at a inp of Some (tok, rest) \<Rightarrow> Some (rest, []) | None \<Rightarrow> None))"
proof (induction p q a inp rule: guarded_token_at.induct)
  case (1 p q a x y ys)
  show ?case
  proof (cases "x = p \<and> y = q")
    case True
    have tail: "bt [One (Lit a), Plus WordChar] False ys [(k, [p, q])] =
       (case token_at a ys of Some (tok, rest) \<Rightarrow> Some (rest, [(k, [p, q])]) | None \<Rightarrow> None)"
      by (rule bt_token)
    have fall: "bt [One (Lit a), Plus WordChar] b (x # y # ys) [] =
       (case token_at a (x # y # ys) of Some (tok, rest) \<Rightarrow> Some (rest, []) | None \<Rightarrow> None)"
      by (rule bt_token)
    have step: "bt [Opt [Group k [One (Lit p), One (Lit q)]], One (Lit a), Plus WordChar] b (x # y # ys) []
        = (case bt [One (Lit a), Plus WordChar] False ys [(k, [p, q])] of
             Some r \<Rightarrow> Some r
           | None \<Rightarrow> bt [One (Lit a), Plus WordChar] b (x # y # ys) [])"
      using True by (simp cong: option.case_cong)
    from True have g: "guarded_token_at p q a (x # y # ys) = token_at a ys" by simp
    show ?thesis
      unfolding step tail fall g by (cases "token_at a ys") auto
  next
    case False
    have fall: "bt [One (Lit a), Plus WordChar] b (x # y # ys) [] =
       (case token_at a (x # y # ys) of Some (tok, rest) \<Rightarrow> Some (rest, []) | None \<Rightarrow> None)"
      by (rule bt_token)
    have step: "bt [Opt [Group k [One (Lit p), One (Lit q)]], One (Lit a), Plus WordChar] b (x # y # ys) []
        = bt [One (Lit a), Plus WordChar] b (x # y # ys) []"
      using False by auto
    from False have g: "guarded_token_at p q a (x # y # ys) = None" by auto
    show ?thesis unfolding step g fall by simp
  qed
qed simp_all

lemma bt_splat:
  "bt (re_seq SPLAT_PARAMS) b inp c =
     (case splat_at inp of Some (tok, rest) \<Rightarrow> Some (rest, c) | None \<Rightarrow> None)"
  by (simp add: SPLAT_PARAMS_def splat_at_def bt_token del: bt.simps)

lemma bt_named:
  "bt (re_seq NAMED_PARAM) b inp no_caps =
     (case guarded_at inp of
        Some (tok, rest) \<Rightarrow> Some (rest, [(1, js ''(?'')])
      | None \<Rightarrow> (case named_at inp of Some (tok, rest) \<Rightarrow> Some (rest, no_caps) | None \<Rightarrow> None))"
  unfolding named_at_def guarded_at_def no_caps_def
  by (simp add: NAMED_PARAM_def bt_guarded_token js_def del: bt.simps cong: option.case_cong)

lemma re_seq_NAMED_PARAMS: "re_seq NAMED_PARAMS = re_seq NAMED_PARAM"
  by (simp add: NAMED_PARAMS_def)

lemma take_matched: "inp = m @ rest \<Longrightarrow> take (length inp - length rest) inp = m"
  by simp

lemma hits_named: "hits (segs (re_seq NAMED_PARAM) b inp) = named_tokens inp"
proof (induction inp arbitrary: b rule: named_tokens.induct)
  case 1
  show ?case by (simp add: hits_Nil_miss bt_named guarded_at_def named_at_def del: bt.simps)
next
  case (2 x xs)
  show ?case
  proof (cases "guarded_at (x # xs)")
    case (Some p)
    obtain tok rest where p: "p = (tok, rest)" by (cases p)
    from Some p have bt: "bt (re_seq NAMED_PARAM) b (x # xs) no_caps = Some (rest, [(1, js ''(?'')])"
      by (simp add: bt_named del: bt.simps)
    from Some p have len: "length rest < Suc (length xs)" by (auto dest: guarded_at_length)
    from Some p have "x # xs = (js ''(?'' @ tok) @ rest" by (auto dest: guarded_at_split)
    then have tk: "take (length (x # xs) - length rest) (x # xs) = js ''(?'' @ tok"
      by (rule take_matched)
    have ih: "hits (segs (re_seq NAMED_PARAM) False rest) = named_tokens rest"
      using "2.IH" Some p by auto
    from ih hits_Cons_hit [OF bt len] tk Some p show ?thesis by simp
  next
    case None
    show ?thesis
    proof (cases "named_at (x # xs)")
      case (Some p)
      obtain tok rest where p: "p = (tok, rest)" by (cases p)
      from None Some p have bt: "bt (re_seq NAMED_PARAM) b (x # xs) no_caps = Some (rest, no_caps)"
        by (simp add: bt_named del: bt.simps)
      from Some p have len: "length rest < Suc (length xs)" by (auto dest: named_at_length)
      from Some p have "x # xs = tok @ rest" by (auto dest: named_at_split)
      then have tk: "take (length (x # xs) - length rest) (x # xs) = tok"
        by (rule take_matched)
      have ih: "hits (segs (re_seq NAMED_PARAM) False rest) = named_tokens rest"
        using "2.IH" None Some p by auto
      from ih hits_Cons_hit [OF bt len] tk None Some p
      show ?thesis by simp
    next
      case nn: None
      from None nn have bt: "bt (re_seq NAMED_PARAM) b (x # xs) no_caps = None"
        by (simp add: bt_named del: bt.simps)
      have ih: "hits (segs (re_seq NAMED_PARAM) False xs) = named_tokens xs"
        using "2.IH" None nn by auto
      from ih hits_Cons_miss [OF bt] None nn show ?thesis by simp
    qed
  qed
qed

lemma expand_no_dollar: "ch CHR ''$'' \<notin> set e \<Longrightarrow> expand e m mt c bef aft = e"
  by (induction e m mt c bef aft rule: expand.induct) auto


lemma render_splat:
  assumes "ch CHR ''$'' \<notin> set e"
  shows "render (Template e) m bef (segs (re_seq SPLAT_PARAMS) b inp) = subst_all_splat e inp"
  using assms
proof (induction e inp arbitrary: b bef rule: subst_all_splat.induct)
  case (1 e)
  show ?case by (simp add: render_Nil_miss bt_splat splat_at_def del: bt.simps)
next
  case (2 e x xs)
  show ?case
  proof (cases "splat_at (x # xs)")
    case (Some p)
    obtain tok rest where p: "p = (tok, rest)" by (cases p)
    from Some p have bt: "bt (re_seq SPLAT_PARAMS) b (x # xs) no_caps = Some (rest, no_caps)"
      by (simp add: bt_splat del: bt.simps)
    from Some p have len: "length rest < Suc (length xs)" by (auto dest: splat_at_length)
    have ih: "\<And>bef. render (Template e) m bef (segs (re_seq SPLAT_PARAMS) False rest) = subst_all_splat e rest"
      using "2.IH" "2.prems" Some p by auto
    from ih render_Cons_hit [OF bt len, of "Template e" m bef] Some p "2.prems" show ?thesis
      by (simp add: expand_no_dollar)
  next
    case None
    then have bt: "bt (re_seq SPLAT_PARAMS) b (x # xs) no_caps = None"
      by (simp add: bt_splat del: bt.simps)
    have ih: "\<And>bef. render (Template e) m bef (segs (re_seq SPLAT_PARAMS) False xs) = subst_all_splat e xs"
      using "2.IH" "2.prems" None by auto
    from ih render_Cons_miss [OF bt, of "Template e" m bef] None show ?thesis by simp
  qed
qed


lemma re_global_simps:
  "re_global SPLAT_PARAMS" "re_global NAMED_PARAMS" "re_global OPTIONAL_PARAMS"
  "re_global PARENTHESES" "re_global ESCAPE" "\<not> re_global NAMED_PARAM"
  "\<not> re_global TRAILING_SLASH" "\<not> re_global LEADING_SLASH"
  by (simp_all add: SPLAT_PARAMS_def NAMED_PARAMS_def OPTIONAL_PARAMS_def PARENTHESES_def
      ESCAPE_def NAMED_PARAM_def TRAILING_SLASH_def LEADING_SLASH_def)


lemma replace_all_splat:
  assumes "ch CHR ''$'' \<notin> set e"
  shows "replace_regexp SPLAT_PARAMS (Template e) p = subst_all_splat e p"
  using assms by (simp add: replace_regexp_def render_splat re_global_simps)

lemma match_global_named:
  "match_global NAMED_PARAMS p = (case named_tokens p of [] \<Rightarrow> None | t # ts \<Rightarrow> Some (t # ts))"
  by (simp add: match_global_def re_seq_NAMED_PARAMS hits_named)


lemma render_named_callback:
  "render (Callback (\<lambda>mtch optional.
          if (case optional of None \<Rightarrow> False | Some g \<Rightarrow> g \<noteq> []) then mtch
          else js ''([^/?]+)'')) m bef (segs (re_seq NAMED_PARAM) b inp) = named_spec inp"
proof (induction inp arbitrary: b bef rule: named_spec.induct)
  case 1
  show ?case by (simp add: render_Nil_miss bt_named guarded_at_def named_at_def del: bt.simps)
next
  case (2 x xs)
  let ?f = "Callback (\<lambda>mtch optional.
          if (case optional of None \<Rightarrow> False | Some g \<Rightarrow> g \<noteq> []) then mtch
          else js ''([^/?]+)'')"
  show ?case
  proof (cases "guarded_at (x # xs)")
    case (Some p)
    obtain tok rest where p: "p = (tok, rest)" by (cases p)
    from Some p have bt: "bt (re_seq NAMED_PARAM) b (x # xs) no_caps = Some (rest, [(1, js ''(?'')])"
      by (simp add: bt_named del: bt.simps)
    from Some p have len: "length rest < Suc (length xs)" by (auto dest: guarded_at_length)
    from Some p have "x # xs = (js ''(?'' @ tok) @ rest" by (auto dest: guarded_at_split)
    then have tk: "take (length (x # xs) - length rest) (x # xs) = js ''(?'' @ tok"
      by (rule take_matched)
    have ih: "\<And>bef. render ?f m bef (segs (re_seq NAMED_PARAM) False rest) = named_spec rest"
      using "2.IH" Some p by auto
    have "js ''(?'' \<noteq> []" by (simp add: js_def)
    with ih render_Cons_hit [OF bt len, of ?f m bef] tk Some p show ?thesis by simp
  next
    case None
    show ?thesis
    proof (cases "named_at (x # xs)")
      case (Some p)
      obtain tok rest where p: "p = (tok, rest)" by (cases p)
      from None Some p have bt: "bt (re_seq NAMED_PARAM) b (x # xs) no_caps = Some (rest, no_caps)"
        by (simp add: bt_named del: bt.simps)
      from Some p have len: "length rest < Suc (length xs)" by (auto dest: named_at_length)
      have ih: "\<And>bef. render ?f m bef (segs (re_seq NAMED_PARAM) False rest) = named_spec rest"
        using "2.IH" None Some p by auto
      from ih render_Cons_hit [OF bt len, of ?f m bef] None Some p
      show ?thesis by (simp add: no_caps_def)
    next
      case nn: None
      from None nn have bt: "bt (re_seq NAMED_PARAM) b (x # xs) no_caps = None"
        by (simp add: bt_named del: bt.simps)
      have ih: "\<And>bef. render ?f m bef (segs (re_seq NAMED_PARAM) False xs) = named_spec xs"
        using "2.IH" None nn by auto
      from ih render_Cons_miss [OF bt, of ?f m bef] None nn show ?thesis by simp
    qed
  qed
qed

lemma named_step_spec: "named_step route = named_spec route"
  by (simp add: named_step_def replace_regexp_def re_global_simps re_seq_NAMED_PARAMS
      render_named_callback)

lemma bt_lazy_to:
  "bt [LazyStar AnyChar, Close k start, One (Lit q)] b inp c =
     (case scan_to is_line_terminator q inp of
        Some (g, rest) \<Rightarrow> Some (rest, (k, take (length start - Suc (length rest)) start) # c)
      | None \<Rightarrow> None)"
proof (induction inp arbitrary: b)
  case Nil
  show ?case by simp
next
  case (Cons y ys)
  show ?case
  proof (cases "y = q")
    case True
    then show ?thesis by simp
  next
    case False
    then have "bt [LazyStar AnyChar, Close k start, One (Lit q)] b (y # ys) c =
        (if is_line_terminator y then None
         else bt [LazyStar AnyChar, Close k start, One (Lit q)] False ys c)"
      by simp
    with False Cons.IH [of False] show ?thesis by (simp split: option.splits)
  qed
qed

lemma bt_group:
  "bt [One (Lit p), Group k [LazyStar AnyChar], One (Lit q)] b inp c =
     (case inp of
        [] \<Rightarrow> None
      | x # xs \<Rightarrow>
          if x = p then
            (case scan_to is_line_terminator q xs of
               Some (g, rest) \<Rightarrow> Some (rest, (k, g) # c)
             | None \<Rightarrow> None)
          else None)"
proof (cases inp)
  case Nil
  then show ?thesis by simp
next
  case (Cons x xs)
  have "bt [One (Lit p), Group k [LazyStar AnyChar], One (Lit q)] b (x # xs) c =
      (if x = p then bt [LazyStar AnyChar, Close k xs, One (Lit q)] False xs c else None)"
    by simp
  also have "\<dots> = (if x = p then
            (case scan_to is_line_terminator q xs of
               Some (g, rest) \<Rightarrow> Some (rest, (k, g) # c)
             | None \<Rightarrow> None)
          else None)"
    by (auto simp: bt_lazy_to simp del: bt.simps split: option.splits dest!: scan_to_split)
  finally show ?thesis using Cons by simp
qed

lemma bt_optional:
  "bt (re_seq OPTIONAL_PARAMS) b inp no_caps =
     (case group_at is_line_terminator inp of
        Some (g, rest) \<Rightarrow> Some (rest, [(1, g)])
      | None \<Rightarrow> None)"
  by (cases inp)
     (simp_all add: OPTIONAL_PARAMS_def bt_group no_caps_def group_at_Nil group_at_Cons
        del: bt.simps cong: option.case_cong)

lemma render_optional_delete:
  "render (Template []) m bef (segs (re_seq OPTIONAL_PARAMS) b inp) = strip_groups inp"
  unfolding strip_groups_def
proof (induction "is_line_terminator" inp arbitrary: b bef rule: remove_groups.induct)
  case 1
  show ?case by (simp add: render_Nil_miss bt_optional group_at_Nil del: bt.simps)
next
  case (2 x xs)
  show ?case
  proof (cases "group_at is_line_terminator (x # xs)")
    case (Some p)
    obtain g rest where p: "p = (g, rest)" by (cases p)
    from Some p have bt: "bt (re_seq OPTIONAL_PARAMS) b (x # xs) no_caps = Some (rest, [(1, g)])"
      by (simp add: bt_optional del: bt.simps)
    from Some p have len: "length rest < Suc (length xs)" by (auto dest: group_at_length)
    have ih: "\<And>bef. render (Template []) m bef (segs (re_seq OPTIONAL_PARAMS) False rest)
                = remove_groups is_line_terminator rest"
      using "2.hyps" Some p by auto
    from ih render_Cons_hit [OF bt len, of "Template []" m bef] Some p show ?thesis by simp
  next
    case None
    then have bt: "bt (re_seq OPTIONAL_PARAMS) b (x # xs) no_caps = None"
      by (simp add: bt_optional del: bt.simps)
    have ih: "\<And>bef. render (Template []) m bef (segs (re_seq OPTIONAL_PARAMS) False xs)
                = remove_groups is_line_terminator xs"
      using "2.hyps" None by auto
    from ih render_Cons_miss [OF bt, of "Template []" m bef] None show ?thesis by simp
  qed
qed

lemma removeOptionalParams_eq:
  "removeOptionalParams p st = (strip_groups p, st\<lparr>li_OPTIONAL_PARAMS := 0\<rparr>)"
  by (simp add: removeOptionalParams_def replace_regexp_def re_global_simps render_optional_delete)

lemma scan_to_remove_groups:
  "scan_to bad q (remove_groups bad s) = Some r \<Longrightarrow> q = ch CHR '')'' \<Longrightarrow>
   \<not> bad (ch CHR ''('') \<Longrightarrow> scan_to bad q s \<noteq> None"
proof (induction bad s arbitrary: r rule: remove_groups.induct)
  case (1 bad)
  then show ?case by simp
next
  case (2 bad x xs)
  show ?case
  proof (cases "group_at bad (x # xs)")
    case (Some p)
    obtain g rest where p: "p = (g, rest)" by (cases p)
    with Some have "x = ch CHR ''(''" "scan_to bad (ch CHR '')'') xs = Some (g, rest)"
      by (auto simp: group_at_Cons split: if_splits)
    with "2.prems" show ?thesis by (auto split: if_splits)
  next
    case None
    with "2.prems" have s: "scan_to bad q (x # remove_groups bad xs) = Some r" by simp
    show ?thesis
    proof (cases "x = q")
      case True
      then show ?thesis by simp
    next
      case False
      with s have nb: "\<not> bad x" and "scan_to bad q (remove_groups bad xs) \<noteq> None"
        by (auto split: if_splits option.splits)
      then obtain r' where "scan_to bad q (remove_groups bad xs) = Some r'" by auto
      with "2.IH" None "2.prems" have "scan_to bad q xs \<noteq> None" by blast
      with False nb show ?thesis by (auto split: option.splits)
    qed
  qed
qed

lemma remove_groups_idem:
  "\<not> bad (ch CHR ''('') \<Longrightarrow> remove_groups bad (remove_groups bad s) = remove_groups bad s"
proof (induction bad s rule: remove_groups.induct)
  case (1 bad)
  show ?case by simp
next
  case (2 bad x xs)
  show ?case
  proof (cases "group_at bad (x # xs)")
    case (Some p)
    obtain g rest where p: "p = (g, rest)" by (cases p)
    with "2.IH" "2.prems" Some show ?thesis by simp
  next
    case None
    have "group_at bad (x # remove_groups bad xs) = None"
    proof (cases "x = ch CHR ''(''")
      case True
      with None have "scan_to bad (ch CHR '')'') xs = None" by (simp add: group_at_Cons)
      with scan_to_remove_groups [of bad "ch CHR '')''" xs] "2.prems"
      have "scan_to bad (ch CHR '')'') (remove_groups bad xs) = None"
        by (cases "scan_to bad (ch CHR '')'') (remove_groups bad xs)") auto
      with True show ?thesis by (simp add: group_at_Cons)
    next
      case False
      then show ?thesis by (simp add: group_at_Cons)
    qed
    with "2.IH" "2.prems" None show ?thesis by simp
  qed
qed

lemma strip_groups_idem: "strip_groups (strip_groups p) = strip_groups p"
  by (simp add: strip_groups_def remove_groups_idem is_line_terminator_def)

section \<open>What encodeURIComponent returns\<close>

lemma unreserved_not_surrogate:
  "uri_unreserved c \<Longrightarrow> \<not> is_trail_surrogate c \<and> \<not> is_lead_surrogate c"
  by (auto simp: uri_unreserved_def is_trail_surrogate_def is_lead_surrogate_def is_upper_def
      is_lower_def is_digit_def js_def word_le_nat_alt)

lemma uri_encode_error: "uri_encode s = Inl e \<Longrightarrow> e = URIError"
proof (induction s rule: uri_encode.induct)
  case 1
  then show ?case by simp
next
  case (2 c cs)
  show ?case
  proof (cases "uri_unreserved c")
    case True
    with 2 show ?thesis by (cases "uri_encode cs") auto
  next
    case False
    show ?thesis
    proof (cases "is_trail_surrogate c")
      case True
      with False 2 show ?thesis by simp
    next
      case nt: False
      show ?thesis
      proof (cases "is_lead_surrogate c")
        case True
        show ?thesis
        proof (cases cs)
          case Nil
          with False nt True 2 show ?thesis by simp
        next
          case (Cons d ds)
          with False nt True 2 show ?thesis
            by (cases "is_trail_surrogate d"; cases "uri_encode ds") auto
        qed
      next
        case nl: False
        with False nt 2 show ?thesis by (cases "uri_encode cs") auto
      qed
    qed
  qed
qed

lemma uri_encode_ok: "well_formed s \<Longrightarrow> \<exists>a. uri_encode s = Inr a"
proof (induction s rule: uri_encode.induct)
  case 1
  then show ?case by simp
next
  case (2 c cs)
  show ?case
  proof (cases "uri_unreserved c")
    case True
    with 2 unreserved_not_surrogate [OF True] show ?thesis by auto
  next
    case False
    show ?thesis
    proof (cases "is_trail_surrogate c")
      case True
      with 2 show ?thesis by simp
    next
      case nt: False
      show ?thesis
      proof (cases "is_lead_surrogate c")
        case True
        show ?thesis
        proof (cases cs)
          case Nil
          with nt True 2 show ?thesis by simp
        next
          case (Cons d ds)
          with False nt True 2 show ?thesis by auto
        qed
      next
        case nl: False
        with False nt 2 show ?thesis by auto
      qed
    qed
  qed
qed

lemma uri_encode_fails: "\<not> well_formed s \<Longrightarrow> uri_encode s = Inl URIError"
proof (induction s rule: uri_encode.induct)
  case 1
  then show ?case by simp
next
  case (2 c cs)
  show ?case
  proof (cases "uri_unreserved c")
    case True
    with 2 unreserved_not_surrogate [OF True] show ?thesis by auto
  next
    case False
    show ?thesis
    proof (cases "is_trail_surrogate c")
      case True
      with False show ?thesis by simp
    next
      case nt: False
      show ?thesis
      proof (cases "is_lead_surrogate c")
        case True
        show ?thesis
        proof (cases cs)
          case Nil
          with False nt True show ?thesis by simp
        next
          case (Cons d ds)
          with False nt True 2 show ?thesis by auto
        qed
      next
        case nl: False
        with False nt 2 show ?thesis by auto
      qed
    qed
  qed
qed

lemma unat_small: "n < 65536 \<Longrightarrow> unat (of_nat n :: jschar) = n"
  by (simp only: unat_of_nat) simp

lemma unat_hex_digit: "d < 16 \<Longrightarrow> unat (hex_digit d) = (if d < 10 then 48 + d else 55 + d)"
  unfolding hex_digit_def using unat_small [of "48 + d"] unat_small [of "55 + d"]
  by (simp del: of_nat_add)

lemma hex_digit_not_dollar: "d < 16 \<Longrightarrow> hex_digit d \<noteq> 36"
proof
  assume d: "d < 16" and "hex_digit d = 36"
  then have "unat (hex_digit d) = 36" by simp
  with d show False by (simp add: unat_hex_digit split: if_splits)
qed

lemma utf8_bytes: "n < 0x110000 \<Longrightarrow> b \<in> set (utf8 n) \<Longrightarrow> b < 256"
  by (auto simp: utf8_def split: if_splits)

lemma percent_no_dollar: "b < 256 \<Longrightarrow> 36 \<notin> set (percent b)"
proof -
  assume "b < 256"
  then have "b div 16 < 16" "b mod 16 < 16" by auto
  then show ?thesis
    using hex_digit_not_dollar [of "b div 16"] hex_digit_not_dollar [of "b mod 16"]
    by (auto simp: percent_def)
qed

lemma escape_cp_no_dollar: "n < 0x110000 \<Longrightarrow> 36 \<notin> set (escape_cp n)"
  by (auto simp: escape_cp_def dest: utf8_bytes percent_no_dollar)

lemma pair_cp_bound: "is_lead_surrogate hi \<Longrightarrow> is_trail_surrogate lo \<Longrightarrow> pair_cp hi lo < 0x110000"
  by (auto simp: pair_cp_def is_lead_surrogate_def is_trail_surrogate_def word_le_nat_alt)

lemma unat_jschar_bound: "unat (c :: jschar) < 0x110000"
proof -
  have "unat c < 2 ^ LENGTH(16)" by (rule unsigned_less)
  then show ?thesis by simp
qed

lemma unreserved_not_dollar: "uri_unreserved c \<Longrightarrow> c \<noteq> 36"
  by (auto simp: uri_unreserved_def is_upper_def is_lower_def is_digit_def js_def)

lemma uri_encode_no_dollar: "uri_encode s = Inr e \<Longrightarrow> 36 \<notin> set e"
proof (induction s arbitrary: e rule: uri_encode.induct)
  case 1
  then show ?case by simp
next
  case (2 c cs)
  show ?case
  proof (cases "uri_unreserved c")
    case True
    with 2 unreserved_not_dollar [OF True] show ?thesis
      by (cases "uri_encode cs") auto
  next
    case False
    show ?thesis
    proof (cases "is_trail_surrogate c")
      case True
      with False 2 show ?thesis by simp
    next
      case nt: False
      show ?thesis
      proof (cases "is_lead_surrogate c")
        case True
        show ?thesis
        proof (cases cs)
          case Nil
          with False nt True 2 show ?thesis by simp
        next
          case (Cons d ds)
          show ?thesis
          proof (cases "is_trail_surrogate d")
            case td: True
            from escape_cp_no_dollar [OF pair_cp_bound [OF True td]]
            have "36 \<notin> set (escape_cp (pair_cp c d))" .
            with False nt True td Cons 2 show ?thesis
              by (cases "uri_encode ds") auto
          next
            case ntd: False
            with False nt True Cons 2 show ?thesis by simp
          qed
        qed
      next
        case nl: False
        from escape_cp_no_dollar [OF unat_jschar_bound [of c]]
        have "36 \<notin> set (escape_cp (unat c))" .
        with False nt nl 2 show ?thesis by (cases "uri_encode cs") auto
      qed
    qed
  qed
qed

lemma encode_no_dollar: "encodeURIComponent v = Inr e \<Longrightarrow> ch CHR ''$'' \<notin> set e"
  by (auto simp: encodeURIComponent_def dest: uri_encode_no_dollar)

section \<open>Facts used by the claims\<close>

subsection \<open>Faults and values\<close>

lemma isEmpty_Keyed:
  "isEmpty (Keyed kvs) = (kvs = [] \<or> get_prop kvs (js ''length'') = JNum 0)"
proof (cases "kvs = []")
  case True
  then show ?thesis by (simp add: get_prop_def)
next
  case False
  then show ?thesis by (cases "get_prop kvs (js ''length'')") auto
qed

lemma encode_ok: "well_formed (ToString v) \<Longrightarrow> \<exists>a. encodeURIComponent v = Inr a"
  unfolding encodeURIComponent_def by (rule uri_encode_ok)

lemma encode_fails: "encodeURIComponent v = Inl e \<Longrightarrow> e = URIError \<and> \<not> well_formed (ToString v)"
  unfolding encodeURIComponent_def using uri_encode_error [of "ToString v" e] uri_encode_ok [of "ToString v"]
  by auto

lemma replaceArg_ok:
  "well_formed (ToString v) \<Longrightarrow> \<exists>q st'. replaceArg p v st = (Inr q, st')"
  by (auto simp: replaceArg_def Let_def dest: encode_ok)

lemma replaceArg_fails:
  "replaceArg p v st = (Inl e, st') \<Longrightarrow> e = URIError \<and> \<not> well_formed (ToString v)"
  by (auto simp: replaceArg_def Let_def split: sum.splits if_splits dest: encode_fails)

lemma inject_ok:
  "list_all (\<lambda>v. well_formed (ToString v)) vals \<Longrightarrow> \<exists>q st'. inject p vals st = (Inr q, st')"
proof (induction vals arbitrary: p st)
  case Nil
  show ?case by simp
next
  case (Cons v vs)
  then obtain q st1 where "replaceArg p v st = (Inr q, st1)"
    using replaceArg_ok [of v p st] by auto
  with Cons show ?case by simp
qed

lemma inject_fails:
  "inject p vals st = (Inl e, st') \<Longrightarrow>
   e = URIError \<and> \<not> list_all (\<lambda>v. well_formed (ToString v)) vals"
proof (induction vals arbitrary: p st)
  case Nil
  then show ?case by simp
next
  case (Cons v vs)
  show ?case
  proof (cases "replaceArg p v st")
    case (Pair r st1)
    show ?thesis
    proof (cases r)
      case (Inl e1)
      with Pair Cons.prems replaceArg_fails [of p v st e1 st1] show ?thesis by simp
    next
      case (Inr q)
      with Pair Cons.prems Cons.IH [of q st1] show ?thesis by simp
    qed
  qed
qed

lemma get_prop_cases: "get_prop kvs k = JUndefined \<or> get_prop kvs k \<in> snd ` set kvs"
proof (cases "map_of kvs k")
  case None
  then show ?thesis by (simp add: get_prop_def)
next
  case (Some v)
  then have "(k, v) \<in> set kvs" by (rule map_of_SomeD)
  then have "snd (k, v) \<in> snd ` set kvs" by (rule imageI)
  with Some show ?thesis by (simp add: get_prop_def)
qed

lemma lookups_well_formed:
  assumes "list_all (\<lambda>v. well_formed (ToString v)) (map snd kvs)"
  shows "list_all (\<lambda>v. well_formed (ToString v)) (map (\<lambda>name. get_prop kvs (drop 1 name)) ts)"
proof -
  have u: "well_formed (ToString JUndefined)"
    by (simp add: js_def is_trail_surrogate_def is_lead_surrogate_def)
  have "well_formed (ToString (get_prop kvs k))" for k
    using get_prop_cases [of kvs k] assms u by (auto simp: list_all_iff)
  then show ?thesis by (simp add: list_all_iff)
qed

subsection \<open>Injection of keyed values\<close>













subsection \<open>Assembly\<close>

lemma smartConcat_eq:
  "smartConcat h p q f =
     drop_trailing_slash h @ glue (ch CHR ''/'') (drop_trailing_slash (drop_leading_slash p)) @
     glue (ch CHR ''?'') q @ glue (ch CHR ''#'') (case f of None \<Rightarrow> [] | Some x \<Rightarrow> x)"
  by (cases f)
     (simp_all add: smartConcat_def Let_def glue_def removeTrailingSlash_eq removeLeadingSlash_eq)

lemma drop_trailing_slash_last:
  "\<not> (\<exists>r. h = r @ js ''//'') \<Longrightarrow>
   drop_trailing_slash h = [] \<or> last (drop_trailing_slash h) \<noteq> ch CHR ''/''"
proof (cases "h \<noteq> [] \<and> last h = ch CHR ''/''")
  case True
  assume n: "\<not> (\<exists>r. h = r @ js ''//'')"
  from True have h: "h = butlast h @ [ch CHR ''/'']" by (metis append_butlast_last_id)
  show ?thesis
  proof (rule ccontr)
    assume "\<not> ?thesis"
    with True have "butlast h \<noteq> []" "last (butlast h) = ch CHR ''/''"
      by (auto simp: drop_trailing_slash_def)
    then have "butlast h = butlast (butlast h) @ [ch CHR ''/'']" by (metis append_butlast_last_id)
    with h have "h = butlast (butlast h) @ js ''//''" by (simp add: js_def) (metis append_Cons append_Nil append_assoc)
    with n show False by blast
  qed
next
  case False
  then show ?thesis by (auto simp: drop_trailing_slash_def)
qed

lemma drop_leading_slash_hd:
  "\<not> (\<exists>r. p = js ''//'' @ r) \<Longrightarrow>
   drop_trailing_slash (drop_leading_slash p) = [] \<or>
   hd (drop_trailing_slash (drop_leading_slash p)) \<noteq> ch CHR ''/''"
proof -
  assume n: "\<not> (\<exists>r. p = js ''//'' @ r)"
  have a: "drop_leading_slash p = [] \<or> hd (drop_leading_slash p) \<noteq> ch CHR ''/''"
  proof (cases p)
    case Nil
    then show ?thesis by (simp add: drop_leading_slash_def)
  next
    case (Cons x xs)
    show ?thesis
    proof (cases "x = ch CHR ''/''")
      case True
      with Cons n have "xs = [] \<or> hd xs \<noteq> ch CHR ''/''"
        by (cases xs) (auto simp: js_def)
      with Cons True show ?thesis by (simp add: drop_leading_slash_def)
    next
      case False
      with Cons show ?thesis by (simp add: drop_leading_slash_def)
    qed
  qed
  have "\<And>s. drop_trailing_slash s = [] \<or> hd (drop_trailing_slash s) = hd s"
    by (auto simp: drop_trailing_slash_def) (metis hd_append2 append_butlast_last_id)
  with a show ?thesis by (metis drop_trailing_slash_def butlast.simps(1))
qed

subsection \<open>Optional groups\<close>

lemma remove_groups_length: "length (remove_groups bad s) \<le> length s"
proof (induction bad s rule: remove_groups.induct)
  case (1 bad)
  show ?case by simp
next
  case (2 bad x xs)
  show ?case
  proof (cases "group_at bad (x # xs)")
    case None
    with "2.IH" show ?thesis by simp
  next
    case (Some a)
    obtain g rest where a: "a = (g, rest)" by (cases a)
    with Some "2.IH" have "length (remove_groups bad rest) \<le> length rest" by simp
    moreover from Some a have "length rest < length (x # xs)" by (auto dest: group_at_length)
    ultimately show ?thesis using Some a by simp
  qed
qed

lemma no_hits_when_fixed:
  "remove_groups is_line_terminator s = s \<Longrightarrow> hits (segs (re_seq OPTIONAL_PARAMS) b s) = []"
proof (induction s arbitrary: b)
  case Nil
  show ?case by (simp add: hits_Nil_miss bt_optional group_at_Nil del: bt.simps)
next
  case (Cons x xs)
  show ?case
  proof (cases "group_at is_line_terminator (x # xs)")
    case (Some a)
    obtain g rest where a: "a = (g, rest)" by (cases a)
    from Some a have "length rest < length (x # xs)" by (auto dest: group_at_length)
    with remove_groups_length [of is_line_terminator rest]
    have "length (remove_groups is_line_terminator rest) < length (x # xs)" by simp
    with Cons.prems Some a show ?thesis by simp
  next
    case None
    with Cons.prems have "remove_groups is_line_terminator xs = xs" by simp
    with Cons.IH have ih: "hits (segs (re_seq OPTIONAL_PARAMS) False xs) = []" by simp
    from None have "bt (re_seq OPTIONAL_PARAMS) b (x # xs) no_caps = None"
      by (simp add: bt_optional del: bt.simps)
    from hits_Cons_miss [OF this] ih show ?thesis by simp
  qed
qed

lemma no_group_left: "match_global OPTIONAL_PARAMS (strip_groups p) = None"
proof -
  have "remove_groups is_line_terminator (strip_groups p) = strip_groups p"
    using strip_groups_idem [of p] by (simp add: strip_groups_def)
  then show ?thesis by (simp add: match_global_def no_hits_when_fixed)
qed

lemma parse_empty:
  "isEmpty (case args of NoArgs \<Rightarrow> Positional [] | a \<Rightarrow> a) \<Longrightarrow>
   parse (Some p) args st = (Inr (strip_groups p), st\<lparr>li_OPTIONAL_PARAMS := 0\<rparr>)"
  by (simp add: parse_def Let_def removeOptionalParams_eq)

subsection \<open>Statistics\<close>




lemma stats_hasOptionalParams_stable:
  "hasOptionalParams (fst (stats p args st)) = fst (regexp_test OPTIONAL_PARAMS 0 p)"
  by (cases args)
     (auto simp: stats_def getParamsMatch_def paramsArray2Object_def Let_def split: prod.splits)

subsection \<open>Single calls\<close>

text \<open>
  Without a \<^verbatim>\<open>:\<close> in the path, \<^verbatim>\<open>replaceArg\<close> puts the encoded value in place of every
  splat token at once.
\<close>

lemma replaceArg_splat:
  "ch CHR '':'' \<notin> set p \<Longrightarrow> encodeURIComponent v = Inr e \<Longrightarrow>
   replaceArg p v st = (Inr (subst_all_splat e p), st\<lparr>li_SPLAT_PARAMS := 0\<rparr>)"
  using encode_no_dollar [of v e] by (simp add: replaceArg_def replace_all_splat)

text \<open>A value with an unpaired surrogate makes \<^verbatim>\<open>parse\<close> raise URIError.\<close>

lemma parse_unpaired_surrogate:
  "parse (Some (js ''/:a'')) (Positional [JStr [0xD800]]) fresh = (Inl URIError, fresh)"
  by code_simp

text \<open>
  The mapping \<^verbatim>\<open>{length: 0}\<close> is empty for \<^verbatim>\<open>isEmpty\<close>: the parentheses that are no optional
  group stay.
\<close>

lemma parse_length_zero_keeps_parentheses:
  "parse (Some (js '')x('')) (Keyed [(js ''length'', JNum 0)]) fresh = (Inr (js '')x(''), fresh)"
  by code_simp

text \<open>
  A value takes the place of the first named-parameter match left in the path, which
  an earlier value may have made: here \<^verbatim>\<open>q\<close> for \<^verbatim>\<open>:a\<close> makes \<^verbatim>\<open>:q\<close>, and the text
  \<^verbatim>\<open>undefined\<close> for the absent \<^verbatim>\<open>b\<close> replaces it.
\<close>

lemma parse_misplaced_value:
  "parse (Some (js ''::a/:b'')) (Keyed [(js ''a'', JStr (js ''q''))]) fresh
     = (Inr (js ''undefined/:b''), fresh)"
  by code_simp

section \<open>The claims\<close>

text \<open>
  C1. For a pattern without \<^verbatim>\<open>:\<close> and a positional argument set, each value is to replace
  only the first remaining splat token, so that distinct values land on distinct splat
  tokens in reading order. \<^verbatim>\<open>replaceArg\<close> hands the \<^verbatim>\<open>g\<close> expression \<^verbatim>\<open>SPLAT_PARAMS\<close> to
  \<^verbatim>\<open>replace\<close>, which replaces every splat token by the first value (\<open>replaceArg_splat\<close>):
  for the pattern \<^verbatim>\<open>/*a/*b\<close> and the values \<^verbatim>\<open>['x', 'y']\<close> the result is \<^verbatim>\<open>/x/x\<close>, not
  \<^verbatim>\<open>/x/y\<close>.
\<close>

theorem C1_every_splat_takes_first_value:
  "parse (Some (js ''/*a/*b'')) (Positional [JStr (js ''x''), JStr (js ''y'')]) fresh
     = (Inr (js ''/x/x''), fresh)"
  by code_simp

text \<open>
  C2. Two calls of one operation with equal inputs are to return equal results, the
  regular expressions of the module never being changed. \<^verbatim>\<open>isNamedOrSplatParam\<close> calls
  \<^verbatim>\<open>test\<close> on the \<^verbatim>\<open>g\<close> expression \<^verbatim>\<open>SPLAT_PARAMS\<close>, which leaves \<^verbatim>\<open>lastIndex\<close> at the end of
  the match: the first call of \<^verbatim>\<open>path\<close> with the pattern \<^verbatim>\<open>/:a(/*b)\<close> and \<^verbatim>\<open>{a: 1}\<close> returns
  \<^verbatim>\<open>/1\<close> and leaves \<^verbatim>\<open>lastIndex\<close> 4, the second call returns \<^verbatim>\<open>/1/*b\<close>. (The part of the
  claim about \<^verbatim>\<open>stats\<close> holds: \<open>stats_hasOptionalParams_stable\<close>.)
\<close>

theorem C2_second_call_differs:
  "buildPath (no_options\<lparr>opt_path := Some (js ''/:a(/*b)''),
                          opt_params := Keyed [(js ''a'', JNum 1)]\<rparr>) fresh
     = (Inr (js ''/1''), \<lparr>li_OPTIONAL_PARAMS = 0, li_SPLAT_PARAMS = 4\<rparr>) \<and>
   buildPath (no_options\<lparr>opt_path := Some (js ''/:a(/*b)''),
                          opt_params := Keyed [(js ''a'', JNum 1)]\<rparr>)
       \<lparr>li_OPTIONAL_PARAMS = 0, li_SPLAT_PARAMS = 4\<rparr>
     = (Inr (js ''/1/*b''), fresh)"
  by code_simp

text \<open>
  C3. A pattern without a named-parameter token and a keyed argument set that \<^verbatim>\<open>isEmpty\<close>
  does not take for empty make \<^verbatim>\<open>parse\<close> raise TypeError (\<^verbatim>\<open>path.match(NAMED_PARAMS)\<close> is
  null). \<^verbatim>\<open>isEmpty\<close> takes a mapping for empty when it has no key or when its \<^verbatim>\<open>length\<close> is
  the number 0. In every other case \<^verbatim>\<open>parse\<close> returns a string when no supplied value
  holds an unpaired surrogate, and the only other fault is the URIError that
  \<^verbatim>\<open>encodeURIComponent\<close> raises for such a value.

  As stated the claim fails: with the mapping \<^verbatim>\<open>{length: 0}\<close>, which has a key, and the
  pattern \<^verbatim>\<open>/users\<close>, \<^verbatim>\<open>parse\<close> returns \<^verbatim>\<open>/users\<close>. (And with a value that holds an
  unpaired surrogate it raises URIError: \<open>parse_unpaired_surrogate\<close>.)
\<close>

theorem C3_faults_of_parse:
  "isEmpty (Keyed kvs) = (kvs = [] \<or> get_prop kvs (js ''length'') = JNum 0) \<and>
   ((\<exists>kvs. args = Keyed kvs \<and> \<not> isEmpty args \<and> named_tokens p = []) \<longrightarrow>
      parse (Some p) args st = (Inl TypeError, st)) \<and>
   (\<not> (\<exists>kvs. args = Keyed kvs \<and> \<not> isEmpty args \<and> named_tokens p = []) \<longrightarrow>
    list_all (\<lambda>v. well_formed (ToString v)) (values_of args) \<longrightarrow>
      (\<exists>s st'. parse (Some p) args st = (Inr s, st'))) \<and>
   (\<not> (\<exists>kvs. args = Keyed kvs \<and> \<not> isEmpty args \<and> named_tokens p = []) \<longrightarrow>
    fst (parse (Some p) args st) = Inl e \<longrightarrow>
      e = URIError \<and> \<not> list_all (\<lambda>v. well_formed (ToString v)) (values_of args))"
proof -
  let ?bad = "\<exists>kvs. args = Keyed kvs \<and> \<not> isEmpty args \<and> named_tokens p = []"
  let ?args = "case args of NoArgs \<Rightarrow> Positional [] | a \<Rightarrow> a"
  let ?wf = "list_all (\<lambda>v. well_formed (ToString v))"
  have a: "?bad \<longrightarrow> parse (Some p) args st = (Inl TypeError, st)"
    by (auto simp: parse_def replaceArgs_def match_global_named)
  have vals: "\<exists>vals. replaceArgs p args st =
                 (case inject p vals st of
                    (Inl e, st') \<Rightarrow> (Inl e, st')
                  | (Inr p', st') \<Rightarrow> (case strip_unfilled p' st' of (p'', st'') \<Rightarrow> (Inr p'', st''))) \<and>
               (?wf (values_of args) \<longrightarrow> ?wf vals)"
    if nb: "\<not> ?bad" and ne: "\<not> isEmpty ?args"
  proof (cases args)
    case NoArgs
    with ne show ?thesis by simp
  next
    case (Positional xs)
    then show ?thesis by (auto simp: replaceArgs_def)
  next
    case (Keyed kvs)
    with nb ne obtain t ts where t: "named_tokens p = t # ts" by (cases "named_tokens p") auto
    let ?vals = "map (\<lambda>name. get_prop kvs (drop 1 name)) (t # ts)"
    from Keyed t have "replaceArgs p args st =
                 (case inject p ?vals st of
                    (Inl e, st') \<Rightarrow> (Inl e, st')
                  | (Inr p', st') \<Rightarrow> (case strip_unfilled p' st' of (p'', st'') \<Rightarrow> (Inr p'', st'')))"
      by (simp add: replaceArgs_def match_global_named)
    moreover from Keyed have "?wf (values_of args) \<longrightarrow> ?wf ?vals"
      using lookups_well_formed [of kvs "t # ts"] by simp
    ultimately show ?thesis by blast
  qed
  have b: "\<not> ?bad \<longrightarrow> ?wf (values_of args) \<longrightarrow> (\<exists>s st'. parse (Some p) args st = (Inr s, st'))"
  proof (intro impI)
    assume nb: "\<not> ?bad" and wf: "?wf (values_of args)"
    show "\<exists>s st'. parse (Some p) args st = (Inr s, st')"
    proof (cases "isEmpty ?args")
      case True
      then show ?thesis by (simp add: parse_def Let_def removeOptionalParams_eq)
    next
      case False
      from vals [OF nb False] wf obtain vals where
        r: "replaceArgs p args st =
                 (case inject p vals st of
                    (Inl e, st') \<Rightarrow> (Inl e, st')
                  | (Inr p', st') \<Rightarrow> (case strip_unfilled p' st' of (p'', st'') \<Rightarrow> (Inr p'', st'')))"
        and w: "?wf vals" by blast
      from inject_ok [OF w, of p st] obtain q st1 where "inject p vals st = (Inr q, st1)" by blast
      with r have "\<exists>q' st2. replaceArgs p args st = (Inr q', st2)"
        by (cases "strip_unfilled q st1") simp
      moreover from False have "(case args of NoArgs \<Rightarrow> Positional [] | a \<Rightarrow> a) = args"
        by (cases args) auto
      ultimately show ?thesis using False by (auto simp: parse_def Let_def)
    qed
  qed
  have c: "\<not> ?bad \<longrightarrow> fst (parse (Some p) args st) = Inl e \<longrightarrow> e = URIError \<and> \<not> ?wf (values_of args)"
  proof (intro impI)
    assume nb: "\<not> ?bad" and f: "fst (parse (Some p) args st) = Inl e"
    show "e = URIError \<and> \<not> ?wf (values_of args)"
    proof (cases "isEmpty ?args")
      case True
      with f show ?thesis by (simp add: parse_def Let_def removeOptionalParams_eq)
    next
      case False
      then have same: "(case args of NoArgs \<Rightarrow> Positional [] | a \<Rightarrow> a) = args"
        by (cases args) auto
      from vals [OF nb False] obtain vals where
        r: "replaceArgs p args st =
                 (case inject p vals st of
                    (Inl e, st') \<Rightarrow> (Inl e, st')
                  | (Inr p', st') \<Rightarrow> (case strip_unfilled p' st' of (p'', st'') \<Rightarrow> (Inr p'', st'')))"
        and w: "?wf (values_of args) \<longrightarrow> ?wf vals" by blast
      from f False same have "fst (replaceArgs p args st) = Inl e"
        by (auto simp: parse_def Let_def split: prod.splits sum.splits)
      with r obtain st1 where "inject p vals st = (Inl e, st1)"
        by (auto split: prod.splits sum.splits)
      from inject_fails [OF this] w show ?thesis by blast
    qed
  qed
  from isEmpty_Keyed a b c show ?thesis by blast
qed

theorem C3_witness:
  "parse (Some (js ''/users'')) (Keyed [(js ''id'', JNum 1)]) fresh = (Inl TypeError, fresh) \<and>
   (\<exists>s st'. parse (Some (js ''/users/:id'')) (Keyed [(js ''id'', JNum 1)]) fresh = (Inr s, st'))"
proof -
  have e: "\<not> isEmpty (Keyed [(js ''id'', JNum 1)])" by code_simp
  have n1: "named_tokens (js ''/users'') = []" by code_simp
  have n2: "named_tokens (js ''/users/:id'') \<noteq> []" by code_simp
  have w: "list_all (\<lambda>v. well_formed (ToString v)) (values_of (Keyed [(js ''id'', JNum 1)]))"
    by code_simp
  from C3_faults_of_parse [of "[(js ''id'', JNum 1)]" "Keyed [(js ''id'', JNum 1)]" "js ''/users''" fresh]
    e n1
  have a: "parse (Some (js ''/users'')) (Keyed [(js ''id'', JNum 1)]) fresh = (Inl TypeError, fresh)"
    by blast
  from C3_faults_of_parse [of "[(js ''id'', JNum 1)]" "Keyed [(js ''id'', JNum 1)]" "js ''/users/:id''" fresh]
    n2 w
  have b: "\<exists>s st'. parse (Some (js ''/users/:id'')) (Keyed [(js ''id'', JNum 1)]) fresh = (Inr s, st')"
    by blast
  from a b show ?thesis by blast
qed

theorem C3_length_zero_is_taken_for_empty:
  "parse (Some (js ''/users'')) (Keyed [(js ''length'', JNum 0)]) fresh = (Inr (js ''/users''), fresh) \<and>
   named_tokens (js ''/users'') = []"
  by code_simp

text \<open>
  C4. With no arguments, an empty array or a mapping without keys, \<^verbatim>\<open>path\<close> returns
  the pattern without its optional groups, an optional group being what
  \<^verbatim>\<open>OPTIONAL_PARAMS\<close> matches: an opening parenthesis, the text up to the next closing
  parenthesis, and that parenthesis, when no line terminator stands between the two
  (\<open>strip_groups\<close>). No such group is left in the result, and \<^verbatim>\<open>path\<close> applied to the result
  returns it unchanged.

  As stated (every parenthesized group is removed, \<open>spec_remove_groups\<close>) the claim
  fails: the pattern made of an opening parenthesis, a line feed and a closing
  parenthesis comes back as it is.
\<close>

theorem C4_empty_args_strip_groups:
  "buildPath (no_options\<lparr>opt_path := Some p\<rparr>) st
     = (Inr (strip_groups p), st\<lparr>li_OPTIONAL_PARAMS := 0\<rparr>) \<and>
   buildPath (no_options\<lparr>opt_path := Some p, opt_params := Positional []\<rparr>) st
     = (Inr (strip_groups p), st\<lparr>li_OPTIONAL_PARAMS := 0\<rparr>) \<and>
   buildPath (no_options\<lparr>opt_path := Some p, opt_params := Keyed []\<rparr>) st
     = (Inr (strip_groups p), st\<lparr>li_OPTIONAL_PARAMS := 0\<rparr>) \<and>
   match_global OPTIONAL_PARAMS (strip_groups p) = None \<and>
   strip_groups (strip_groups p) = strip_groups p \<and>
   buildPath (no_options\<lparr>opt_path := Some (strip_groups p)\<rparr>) st'
     = (Inr (strip_groups p), st'\<lparr>li_OPTIONAL_PARAMS := 0\<rparr>)"
  by (simp add: buildPath_def no_options_def parse_empty no_group_left strip_groups_idem
      get_prop_def)

theorem C4_group_with_line_break_stays:
  "buildPath (no_options\<lparr>opt_path := Some [ch CHR ''('', 0x0A, ch CHR '')'']\<rparr>) fresh
     = (Inr [ch CHR ''('', 0x0A, ch CHR '')''], fresh) \<and>
   spec_remove_groups [ch CHR ''('', 0x0A, ch CHR '')''] = []"
  by code_simp

text \<open>
  C5. The regular expression compiled for \<^verbatim>\<open>/users/:id\<close> matches \<^verbatim>\<open>/users/42\<close> and does not
  match \<^verbatim>\<open>/users/\<close>: its capture group for \<^verbatim>\<open>:id\<close> takes one or more characters other than
  \<^verbatim>\<open>/\<close> and \<^verbatim>\<open>?\<close>. The text of every compiled regular expression begins with \<^verbatim>\<open>^\<close>, ends
  with \<^verbatim>\<open>$\<close>, and has the optional group \<^verbatim>\<open>(?:\?([\s\S]*))?\<close> for the query string just
  before the \<^verbatim>\<open>$\<close>.
\<close>

theorem C5_regex_of_users_id:
  "fst (test (no_options\<lparr>opt_path := Some (js ''/users/:id''), opt_url := Some (js ''/users/42'')\<rparr>) st)
     = Inr True \<and>
   fst (test (no_options\<lparr>opt_path := Some (js ''/users/:id''), opt_url := Some (js ''/users/'')\<rparr>) st)
     = Inr False \<and>
   RegExp_new (regex_source (js ''/users/:id'')) =
     Inr \<lparr>re_seq = [Bol] @ map (\<lambda>c. One (Lit c)) (js ''/users/'') @
                    [Group 1 [Plus (NegBracket [CChar (ch CHR ''/''), CChar (ch CHR ''?'')])],
                     Opt [NonCap [One (Lit (ch CHR ''?'')),
                                  Group 2 [Star (Bracket [CSpace, CNonSpace])]]],
                     Eol],
          re_global = False\<rparr> \<and>
   regex_source route =
     ch CHR ''^'' # splat_step (named_step (optional_step (escape_step route))) @
     js ''(?:'' @ [ch CHR 0x5C] @ js ''?(['' @ [ch CHR 0x5C] @ js ''s'' @ [ch CHR 0x5C] @ js ''S]*))?$'' \<and>
   hd (regex_source route) = ch CHR ''^'' \<and>
   last (regex_source route) = ch CHR ''$''"
proof -
  let ?R = "\<lparr>re_seq = [Bol] @ map (\<lambda>c. One (Lit c)) (js ''/users/'') @
                    [Group 1 [Plus (NegBracket [CChar (ch CHR ''/''), CChar (ch CHR ''?'')])],
                     Opt [NonCap [One (Lit (ch CHR ''?'')),
                                  Group 2 [Star (Bracket [CSpace, CNonSpace])]]],
                     Eol],
          re_global = False\<rparr>"
  have r: "RegExp_new (regex_source (js ''/users/:id'')) = Inr ?R" by code_simp
  have t1: "fst (regexp_test ?R 0 (js ''/users/42'')) = True" by code_simp
  have t2: "fst (regexp_test ?R 0 (js ''/users/'')) = False" by code_simp
  have a: "fst (test (no_options\<lparr>opt_path := Some (js ''/users/:id''), opt_url := Some (js ''/users/42'')\<rparr>) st)
     = Inr True"
    using r t1 by (simp add: test_def routeToRegex_def no_options_def)
  have b: "fst (test (no_options\<lparr>opt_path := Some (js ''/users/:id''), opt_url := Some (js ''/users/'')\<rparr>) st)
     = Inr False"
    using r t2 by (simp add: test_def routeToRegex_def no_options_def)
  have c: "regex_source route =
     ch CHR ''^'' # splat_step (named_step (optional_step (escape_step route))) @
     js ''(?:'' @ [ch CHR 0x5C] @ js ''?(['' @ [ch CHR 0x5C] @ js ''s'' @ [ch CHR 0x5C] @ js ''S]*))?$''"
    by (simp add: regex_source_def query_tail_def)
  have d: "hd (regex_source route) = ch CHR ''^''" by (simp add: regex_source_def)
  have e: "last (regex_source route) = ch CHR ''$''"
    by (simp add: regex_source_def query_tail_def js_def)
  from a b r c d e show ?thesis by blast
qed

text \<open>
  C6. The third step of the regular-expression compiler (\<open>named_step\<close>) leaves a
  named-parameter token that stands right after \<^verbatim>\<open>(?\<close> as it is, and replaces every other
  named-parameter token by the capture group \<^verbatim>\<open>([^/?]+)\<close>: it computes \<open>named_spec\<close>, for
  every text it is given.
\<close>

theorem C6_named_step_guarded_tokens_kept:
  "named_step s = named_spec s \<and>
   named_step (js ''(?:id)?/:x/(?::y)?'') = js ''(?:id)?/([^/?]+)/(?:([^/?]+))?''"
proof -
  have "named_spec (js ''(?:id)?/:x/(?::y)?'') = js ''(?:id)?/([^/?]+)/(?:([^/?]+))?''"
    by code_simp
  then show ?thesis by (simp add: named_step_spec)
qed

text \<open>
  C7. \<^verbatim>\<open>build\<close> without options returns the empty string. When \<^verbatim>\<open>path\<close> and \<^verbatim>\<open>query\<close> return,
  the URL is the host without one trailing slash, then \<^verbatim>\<open>/\<close> and the filled path without
  one leading and one trailing slash when that is not empty, then \<^verbatim>\<open>?\<close> and the query
  when it is not empty, then \<^verbatim>\<open>#\<close> and the hash when it is not empty. Unless the host
  ends with two slashes, what is left of it does not end with a slash; unless the
  filled path begins with two slashes, what is left of it does not begin with one.

  As stated (exactly one slash between host and path, for every options record) the
  claim fails: the host \<^verbatim>\<open>a//\<close> and the path \<^verbatim>\<open>b\<close> give \<^verbatim>\<open>a//b\<close>.
\<close>

theorem C7_build_assembles:
  assumes "buildPath opts st = (Inr p, st')" and "buildQuery opts = Inr q"
  shows "build no_options st = (Inr [], st\<lparr>li_OPTIONAL_PARAMS := 0\<rparr>) \<and>
         build opts st =
           (Inr (drop_trailing_slash (case opt_host opts of None \<Rightarrow> [] | Some h \<Rightarrow> h) @
                 glue (ch CHR ''/'') (drop_trailing_slash (drop_leading_slash p)) @
                 glue (ch CHR ''?'') q @
                 glue (ch CHR ''#'') (case opt_hash opts of None \<Rightarrow> [] | Some f \<Rightarrow> f)), st') \<and>
         ((\<exists>r. (case opt_host opts of None \<Rightarrow> [] | Some h \<Rightarrow> h) = r @ js ''//'') \<or>
          drop_trailing_slash (case opt_host opts of None \<Rightarrow> [] | Some h \<Rightarrow> h) = [] \<or>
          last (drop_trailing_slash (case opt_host opts of None \<Rightarrow> [] | Some h \<Rightarrow> h)) \<noteq> ch CHR ''/'') \<and>
         ((\<exists>r. p = js ''//'' @ r) \<or>
          drop_trailing_slash (drop_leading_slash p) = [] \<or>
          hd (drop_trailing_slash (drop_leading_slash p)) \<noteq> ch CHR ''/'')"
proof -
  have a: "build no_options st = (Inr [], st\<lparr>li_OPTIONAL_PARAMS := 0\<rparr>)"
    by (simp add: build_def buildPath_def buildQuery_def no_options_def parse_def
        removeOptionalParams_eq strip_groups_def smartConcat_eq glue_def
        drop_trailing_slash_def drop_leading_slash_def)
  from assms have b: "build opts st =
           (Inr (drop_trailing_slash (case opt_host opts of None \<Rightarrow> [] | Some h \<Rightarrow> h) @
                 glue (ch CHR ''/'') (drop_trailing_slash (drop_leading_slash p)) @
                 glue (ch CHR ''?'') q @
                 glue (ch CHR ''#'') (case opt_hash opts of None \<Rightarrow> [] | Some f \<Rightarrow> f)), st')"
    by (simp add: build_def Let_def smartConcat_eq)
  from a b drop_trailing_slash_last [of "case opt_host opts of None \<Rightarrow> [] | Some h \<Rightarrow> h"]
    drop_leading_slash_hd [of p]
  show ?thesis by blast
qed

theorem C7_witness:
  "build no_options fresh = (Inr [], fresh\<lparr>li_OPTIONAL_PARAMS := 0\<rparr>) \<and>
   build (no_options\<lparr>opt_host := Some (js ''http://a.com/''), opt_path := Some (js ''/users/:id''),
                      opt_params := Keyed [(js ''id'', JNum 42)],
                      opt_query := [(js ''a'', JNum 1)], opt_hash := Some (js ''top'')\<rparr>) fresh
     = (Inr (js ''http://a.com/users/42?a=1#top''), fresh)"
proof -
  let ?o = "no_options\<lparr>opt_host := Some (js ''http://a.com/''), opt_path := Some (js ''/users/:id''),
                      opt_params := Keyed [(js ''id'', JNum 42)],
                      opt_query := [(js ''a'', JNum 1)], opt_hash := Some (js ''top'')\<rparr>"
  have h1: "buildPath ?o fresh = (Inr (js ''/users/42''), fresh)" by code_simp
  have h2: "buildQuery ?o = Inr (js ''a=1'')" by code_simp
  have e: "drop_trailing_slash (js ''http://a.com/'') @
           glue (ch CHR ''/'') (drop_trailing_slash (drop_leading_slash (js ''/users/42''))) @
           glue (ch CHR ''?'') (js ''a=1'') @ glue (ch CHR ''#'') (js ''top'')
           = js ''http://a.com/users/42?a=1#top''"
    by code_simp
  from C7_build_assembles [OF h1 h2] e show ?thesis by (simp add: no_options_def)
qed

theorem C7_two_slashes:
  "build (no_options\<lparr>opt_host := Some (js ''a//''), opt_path := Some (js ''b'')\<rparr>) fresh
     = (Inr (js ''a//b''), fresh)"
  by code_simp






text \<open>
  C10. When the argument set is not empty for \<^verbatim>\<open>isEmpty\<close> and \<^verbatim>\<open>parse\<close> returns, the string
  returned holds no parenthesis, those of injected values included: it is what
  \<^verbatim>\<open>replaceArgs\<close> returns, without its parentheses and then without one trailing slash.

  As stated (the string does not end with a slash) the claim fails: the pattern
  \<^verbatim>\<open>/users/:id/\<close> with \<^verbatim>\<open>{id: ''}\<close> gives \<^verbatim>\<open>/users/\<close>. (And a mapping that \<^verbatim>\<open>isEmpty\<close> takes
  for empty keeps its parentheses: \<open>parse_length_zero_keeps_parentheses\<close>.)
\<close>

theorem C10_no_parentheses_one_slash_dropped:
  assumes "\<not> isEmpty args" and "parse path0 args st = (Inr s, st')"
  shows "ch CHR ''('' \<notin> set s \<and> ch CHR '')'' \<notin> set s \<and>
         (\<exists>q. replaceArgs (case path0 of None \<Rightarrow> [] | Some p \<Rightarrow> p) args st = (Inr q, st') \<and>
              s = drop_trailing_slash (filter (\<lambda>c. c \<noteq> ch CHR ''('' \<and> c \<noteq> ch CHR '')'') q))"
proof -
  let ?p = "case path0 of None \<Rightarrow> [] | Some p \<Rightarrow> p"
  from assms(1) have na: "(case args of NoArgs \<Rightarrow> Positional [] | a \<Rightarrow> a) = args"
    by (cases args) auto
  from assms na have "(case replaceArgs ?p args st of
             (Inl e, st') \<Rightarrow> (Inl e, st')
           | (Inr q, st') \<Rightarrow> (Inr (removeTrailingSlash (removeParentheses q)), st')) = (Inr s, st')"
    by (simp add: parse_def Let_def)
  then obtain q where q: "replaceArgs ?p args st = (Inr q, st')"
    and s: "s = removeTrailingSlash (removeParentheses q)"
    by (auto split: prod.splits sum.splits)
  let ?f = "filter (\<lambda>c. c \<noteq> ch CHR ''('' \<and> c \<noteq> ch CHR '')'') q"
  from s have s': "s = drop_trailing_slash ?f"
    by (simp only: removeTrailingSlash_eq removeParentheses_filter)
  have "set (drop_trailing_slash ?f) \<subseteq> set ?f"
    by (auto simp: drop_trailing_slash_def dest: in_set_butlastD)
  with s' have "ch CHR ''('' \<notin> set s" "ch CHR '')'' \<notin> set s" by auto
  with q s' show ?thesis by blast
qed

theorem C10_witness:
  "parse (Some (js ''/:a'')) (Positional [JStr (js ''(x)'')]) fresh = (Inr (js ''/x''), fresh) \<and>
   ch CHR ''('' \<notin> set (js ''/x'') \<and> ch CHR '')'' \<notin> set (js ''/x'') \<and>
   (\<exists>q. replaceArgs (js ''/:a'') (Positional [JStr (js ''(x)'')]) fresh = (Inr q, fresh) \<and>
        js ''/x'' = drop_trailing_slash (filter (\<lambda>c. c \<noteq> ch CHR ''('' \<and> c \<noteq> ch CHR '')'') q))"
proof -
  have h1: "\<not> isEmpty (Positional [JStr (js ''(x)'')])" by simp
  have h2: "parse (Some (js ''/:a'')) (Positional [JStr (js ''(x)'')]) fresh = (Inr (js ''/x''), fresh)"
    by code_simp
  from C10_no_parentheses_one_slash_dropped [OF h1 h2] h2 show ?thesis by simp
qed

theorem C10_trailing_slash_left:
  "parse (Some (js ''/users/:id/'')) (Keyed [(js ''id'', JStr [])]) fresh
     = (Inr (js ''/users/''), fresh)"
  by code_simp

end
